theory Spec2Isabelle
  imports Main
begin

section \<open>JavaScript values and strings\<close>

text \<open>
  The scanner is JavaScript. A string is modelled as a \<^typ>\<open>string\<close>, one \<^typ>\<open>char\<close> per
  code unit, so the model covers the strings whose code units are below 256 (ASCII and
  Latin-1). The dynamically typed values of the model are strings, \<open>null\<close>,
  \<open>undefined\<close>, booleans and objects (an object carries its identity); numbers are left
  out.
\<close>

datatype jsval = JUndefined | JNull | JBool bool | JStr string | JObj nat

datatype exn = TypeError

text \<open>\<open>!v\<close> is \<open>\<not> truthy v\<close>.\<close>

fun truthy :: "jsval \<Rightarrow> bool" where
  "truthy JUndefined = False"
| "truthy JNull = False"
| "truthy (JBool b) = b"
| "truthy (JStr s) = (s \<noteq> [])"
| "truthy (JObj i) = True"

fun typeof :: "jsval \<Rightarrow> string" where
  "typeof JUndefined = ''undefined''"
| "typeof JNull = ''object''"
| "typeof (JBool b) = ''boolean''"
| "typeof (JStr s) = ''string''"
| "typeof (JObj i) = ''object''"

text \<open>The string a value is converted to where a string is expected (\<open>RegExp.test\<close>).\<close>

fun to_string :: "jsval \<Rightarrow> string" where
  "to_string JUndefined = ''undefined''"
| "to_string JNull = ''null''"
| "to_string (JBool b) = (if b then ''true'' else ''false'')"
| "to_string (JStr s) = s"
| "to_string (JObj i) = ''[object Object]''"

text \<open>\<open>s.startsWith(p)\<close>, \<open>s.endsWith(p)\<close> and \<open>s.includes(p)\<close>.\<close>

fun starts_with :: "string \<Rightarrow> string \<Rightarrow> bool" where
  "starts_with [] s = True"
| "starts_with (p # ps) [] = False"
| "starts_with (p # ps) (c # cs) = (p = c \<and> starts_with ps cs)"


fun js_includes :: "string \<Rightarrow> string \<Rightarrow> bool" where
  "js_includes p [] = (p = [])"
| "js_includes p (c # cs) = (starts_with p (c # cs) \<or> js_includes p cs)"

text \<open>
  \<open>s.split(d)\<close> for a one-character separator always yields at least one piece: the
  result is the first piece and the list of the pieces after it, so \<open>parts[0]\<close> is the
  first component and \<open>parts.length > 1\<close> says that the second is not empty.
\<close>

fun split_on :: "char \<Rightarrow> string \<Rightarrow> string \<times> string list" where
  "split_on d [] = ([], [])"
| "split_on d (c # cs) =
     (let (p, ps) = split_on d cs in if c = d then ([], p # ps) else (c # p, ps))"

definition pieces :: "char \<Rightarrow> string \<Rightarrow> string list" where
  "pieces d s = (let (p, ps) = split_on d s in p # ps)"

text \<open>\<open>xs[i]\<close> on an array: \<open>None\<close> is \<open>undefined\<close>.\<close>

fun at_index :: "'a list \<Rightarrow> nat \<Rightarrow> 'a option" where
  "at_index [] i = None"
| "at_index (x # xs) 0 = Some x"
| "at_index (x # xs) (Suc i) = at_index xs i"

definition or_undefined :: "string option \<Rightarrow> jsval" where
  "or_undefined v = (case v of None \<Rightarrow> JUndefined | Some s \<Rightarrow> JStr s)"

definition or_null :: "string option \<Rightarrow> jsval" where
  "or_null v = (case v of None \<Rightarrow> JNull | Some s \<Rightarrow> JStr s)"

text \<open>
  White space as \<open>trim\<close> and the regular expressions' \<open>\s\<close> see it, among the code
  units below 256: tab, line feed, vertical tab, form feed, carriage return, space and
  the no-break space. A line terminator is what \<open>.\<close> does not match and what, under
  the \<open>m\<close> flag, \<open>^\<close> matches after.
\<close>

definition is_ws :: "char \<Rightarrow> bool" where
  "is_ws c = (of_char c \<in> {9, 10, 11, 12, 13, 32, 160 :: nat})"

definition is_line_terminator :: "char \<Rightarrow> bool" where
  "is_line_terminator c = (of_char c \<in> {10, 13 :: nat})"

definition js_trim :: "string \<Rightarrow> string" where
  "js_trim s = rev (dropWhile is_ws (rev (dropWhile is_ws s)))"

text \<open>
  \<open>toLowerCase\<close> on one code unit below 256: the ASCII capitals and the Latin-1
  capitals (192 to 222, but for the multiplication sign 215) move up by 32.
  A regular expression with the \<open>i\<close> flag folds ASCII letters only.
\<close>

definition js_lower :: "char \<Rightarrow> char" where
  "js_lower c =
     (let n = of_char c :: nat
      in if (65 \<le> n \<and> n \<le> 90) \<or> (192 \<le> n \<and> n \<le> 222 \<and> n \<noteq> 215)
         then char_of (n + 32) else c)"

definition toLowerCase :: "string \<Rightarrow> string" where
  "toLowerCase s = map js_lower s"

definition ascii_fold :: "char \<Rightarrow> char" where
  "ascii_fold c =
     (let n = of_char c :: nat in if 65 \<le> n \<and> n \<le> 90 then char_of (n + 32) else c)"

definition is_digit :: "char \<Rightarrow> bool" where
  "is_digit c = (let n = of_char c :: nat in 48 \<le> n \<and> n \<le> 57)"

definition is_lower_az :: "char \<Rightarrow> bool" where
  "is_lower_az c = (let n = of_char c :: nat in 97 \<le> n \<and> n \<le> 122)"

definition is_upper_az :: "char \<Rightarrow> bool" where
  "is_upper_az c = (let n = of_char c :: nat in 65 \<le> n \<and> n \<le> 90)"

section \<open>Configuration\<close>

definition NODE_BUILTINS :: "string list" where
  "NODE_BUILTINS =
    [''assert'', ''buffer'', ''child_process'', ''cluster'', ''crypto'', ''dgram'', ''dns'',
     ''domain'', ''events'', ''fs'', ''http'', ''https'', ''net'', ''os'', ''path'', ''punycode'',
     ''querystring'', ''readline'', ''repl'', ''stream'', ''string_decoder'', ''timers'',
     ''tls'', ''tty'', ''url'', ''util'', ''v8'', ''vm'', ''zlib'', ''constants'', ''module'',
     ''process'', ''console'', ''http2'', ''perf_hooks'', ''trace_events'', ''worker_threads'',
     ''require'', ''exports'']"

definition INTERNAL_ALIAS_PREFIXES :: "string list" where
  "INTERNAL_ALIAS_PREFIXES = [''@/'', ''~/'', ''~~/'']"

definition INTERNAL_ALIAS_ROOTS :: "string list" where
  "INTERNAL_ALIAS_ROOTS =
    [''src'', ''app'', ''apps'', ''components'', ''component'', ''pages'', ''layouts'', ''views'',
     ''hooks'', ''utils'', ''lib'', ''libs'', ''services'', ''service'', ''store'', ''stores'',
     ''state'', ''modules'', ''assets'', ''styles'', ''css'', ''scss'', ''sass'', ''less'',
     ''images'', ''img'', ''fonts'', ''locales'', ''i18n'', ''types'', ''constants'',
     ''config'', ''configs'', ''public'']"

section \<open>PackageNameExtractor\<close>

text \<open>\<open>/^[a-z]:[\\/]/i\<close>: a drive letter, a colon, a backslash or a slash.\<close>

definition drive_path :: "string \<Rightarrow> bool" where
  "drive_path s =
     (case s of
        a # b # c # rest \<Rightarrow>
          is_lower_az (ascii_fold a) \<and> b = CHR '':'' \<and> (c = CHR 0x5C \<or> c = CHR ''/'')
      | _ \<Rightarrow> False)"

definition isAliasPath :: "string \<Rightarrow> bool" where
  "isAliasPath importPath =
     (if importPath = [] then False
      else
        let normalized = js_trim importPath;
            lower = toLowerCase normalized
        in
          if starts_with ''/'' normalized \<and> \<not> starts_with ''//'' normalized then True
          else if drive_path normalized \<or> starts_with [CHR 0x5C, CHR 0x5C] normalized then True
          else if list_ex (\<lambda>prefix. starts_with prefix lower) INTERNAL_ALIAS_PREFIXES then True
          else if lower = ''~'' \<or> starts_with ''~/'' lower then True
          else
            let (root, rest) = split_on CHR ''/'' normalized
            in rest \<noteq> [] \<and> toLowerCase root \<in> set INTERNAL_ALIAS_ROOTS)"

definition stripQueryAndHash :: "string \<Rightarrow> string" where
  "stripQueryAndHash value = fst (split_on CHR ''?'' (fst (split_on CHR ''#'' value)))"

text \<open>
  The canonical package-name grammar
  \<open>/^(@[a-z0-9-~][a-z0-9-._~]*\/)?[a-z0-9-~][a-z0-9-._~]*$/\<close>.
  In both character classes the hyphen after \<open>0-9\<close> is a literal. A name segment is a
  first character of \<open>[a-z0-9-~]\<close> and then characters of \<open>[a-z0-9-._~]\<close> only. Neither
  class has \<open>@\<close> or \<open>/\<close>: a string that starts with \<open>@\<close> can match only through the
  optional group, whose segment runs to the first \<open>/\<close>; any other string is one segment.
\<close>

definition name_start :: "char \<Rightarrow> bool" where
  "name_start c = (is_lower_az c \<or> is_digit c \<or> c = CHR ''-'' \<or> c = CHR ''~'')"

definition name_char :: "char \<Rightarrow> bool" where
  "name_char c =
     (is_lower_az c \<or> is_digit c \<or> c = CHR ''-'' \<or> c = CHR ''.'' \<or> c = CHR ''_'' \<or> c = CHR ''~'')"

definition name_segment :: "string \<Rightarrow> bool" where
  "name_segment s = (case s of [] \<Rightarrow> False | c # cs \<Rightarrow> name_start c \<and> list_all name_char cs)"

definition canonical :: "string \<Rightarrow> bool" where
  "canonical s =
     (case s of
        [] \<Rightarrow> False
      | c # cs \<Rightarrow>
          if c = CHR ''@''
          then name_segment (takeWhile (\<lambda>x. x \<noteq> CHR ''/'') cs) \<and>
               (case dropWhile (\<lambda>x. x \<noteq> CHR ''/'') cs of
                  [] \<Rightarrow> False
                | slash # name \<Rightarrow> name_segment name)
          else name_segment s)"

text \<open>
  \<open>normalized.match(/^(@[^/]+)\/(.+)$/)\<close> on a string that starts with \<open>@\<close>: the scope
  is the \<open>@\<close> and the characters up to the first \<open>/\<close>, at least one; the name is what
  follows that \<open>/\<close>, not empty and free of line terminators. \<open>None\<close> is no match.
\<close>

definition scoped_match :: "string \<Rightarrow> (string \<times> string) option" where
  "scoped_match s =
     (case s of
        [] \<Rightarrow> None
      | c # cs \<Rightarrow>
          if c \<noteq> CHR ''@'' then None
          else
            let scope = takeWhile (\<lambda>x. x \<noteq> CHR ''/'') cs
            in case dropWhile (\<lambda>x. x \<noteq> CHR ''/'') cs of
                 [] \<Rightarrow> None
               | slash # name \<Rightarrow>
                   if scope = [] \<or> name = [] \<or> list_ex is_line_terminator name then None
                   else Some (CHR ''@'' # scope, name))"

text \<open>
  \<open>normalizePackageName\<close> on a non-empty string. \<open>None\<close> is the result \<open>null\<close>.
\<close>

definition normalize_name :: "string \<Rightarrow> string option" where
  "normalize_name pkgName =
     (let normalized =
            (if starts_with ''@'' pkgName
             then (case scoped_match pkgName of
                     None \<Rightarrow> None
                   | Some (scope, name) \<Rightarrow> Some (scope @ ''/'' @ fst (split_on CHR ''@'' name)))
             else if CHR ''@'' \<in> set pkgName then Some (fst (split_on CHR ''@'' pkgName))
             else Some pkgName)
      in case normalized of
           None \<Rightarrow> None
         | Some n \<Rightarrow>
             if n \<in> set NODE_BUILTINS then None
             else if \<not> canonical n then None
             else Some n)"

text \<open>
  \<open>normalizePackageName\<close> receives a string, \<open>null\<close> or \<open>undefined\<close> from its callers; on
  any other truthy value the call of \<open>startsWith\<close> would throw.
\<close>

definition normalizePackageName :: "jsval \<Rightarrow> exn + string option" where
  "normalizePackageName pkgName =
     (if \<not> truthy pkgName then Inr None
      else case pkgName of JStr s \<Rightarrow> Inr (normalize_name s) | _ \<Rightarrow> Inl TypeError)"

text \<open>
  \<open>new URL(cleaned, 'https://example.com')\<close> is the platform's URL parser, not code of
  the scanner: the extractor takes it as a parameter. It gives the \<open>hostname\<close> and the
  \<open>pathname\<close> of the parsed URL, or \<open>None\<close> where the constructor throws.
\<close>

record url =
  hostname :: string
  pathname :: string

type_synonym url_parser = "string \<Rightarrow> url option"

text \<open>
  What the parser gives for a reference that has no scheme and starts with neither a
  slash nor a backslash, and needs no escaping or dot-segment removal: the host of the base, and the
  reference appended to the base's path.
\<close>

definition url_on_base :: url_parser where
  "url_on_base s = Some \<lparr>hostname = ''example.com'', pathname = ''/'' @ s\<rparr>"

text \<open>
  A reference resolves on the base when the parser gives it the host of the base. The
  URL standard does so for every reference without a scheme that does not start with a
  slash or a backslash, so for every string of the canonical grammar.
\<close>

definition base_host :: "url_parser \<Rightarrow> string \<Rightarrow> bool" where
  "base_host parse s =
     (case parse s of None \<Rightarrow> False | Some u \<Rightarrow> hostname u = ''example.com'')"

text \<open>How a \<open>try\<close> block ends when it does not throw: with a \<open>return\<close>, or by reaching its end.\<close>

datatype 'a flow = Returned 'a | Continue

text \<open>\<open>/^(https?:)?\/\//.test(cleaned)\<close>\<close>

definition web_url :: "string \<Rightarrow> bool" where
  "web_url s = (starts_with ''//'' s \<or> starts_with ''http://'' s \<or> starts_with ''https://'' s)"

definition cdn_url :: "url_parser \<Rightarrow> string \<Rightarrow> exn + (string option) flow" where
  "cdn_url parse cleaned =
     (case parse cleaned of
        None \<Rightarrow> Inl TypeError
      | Some u \<Rightarrow>
          let host = hostname u in
          if js_includes ''unpkg.com'' host \<or> js_includes ''jsdelivr.net'' host \<or>
             js_includes ''cdnjs.cloudflare.com'' host
          then
            let pathParts0 = filter (\<lambda>p. p \<noteq> []) (pieces CHR ''/'' (pathname u));
                pathParts =
                  (if js_includes ''jsdelivr.net'' host \<and> at_index pathParts0 0 = Some ''npm''
                   then tl pathParts0 else pathParts0)
            in
              if js_includes ''cdnjs.cloudflare.com'' host \<and> at_index pathParts 0 = Some ''ajax'' \<and>
                 at_index pathParts 1 = Some ''libs''
              then map_sum id Returned (normalizePackageName (or_undefined (at_index pathParts 2)))
              else
                (case pathParts of
                   [] \<Rightarrow> Inr (Returned None)
                 | p0 # others \<Rightarrow>
                     let pkgPart =
                           (case others of
                              [] \<Rightarrow> p0
                            | p1 # _ \<Rightarrow> if starts_with ''@'' p0 then p0 @ ''/'' @ p1 else p0)
                     in map_sum id Returned (normalizePackageName (JStr pkgPart)))
          else if web_url cleaned then Inr (Returned None)
          else Inr Continue)"

text \<open>\<open>.replace(/^(https?:\/\/|node:|file:)/, '')\<close>\<close>

definition strip_protocol :: "string \<Rightarrow> string" where
  "strip_protocol s =
     (if starts_with ''http://'' s then drop 7 s
      else if starts_with ''https://'' s then drop 8 s
      else if starts_with ''node:'' s then drop 5 s
      else if starts_with ''file:'' s then drop 5 s
      else s)"

text \<open>
  \<open>.replace(/^(\.\.\/)*node_modules\//, '')\<close>: \<open>after_dotdots\<close> is the string behind
  its leading \<open>../\<close> repetitions; the prefix goes only when \<open>node_modules/\<close> follows them.
\<close>

fun after_dotdots :: "string \<Rightarrow> string" where
  "after_dotdots (a # b # c # rest) =
     (if a = CHR ''.'' \<and> b = CHR ''.'' \<and> c = CHR ''/'' then after_dotdots rest
      else a # b # c # rest)"
| "after_dotdots s = s"

definition strip_node_modules :: "string \<Rightarrow> string" where
  "strip_node_modules s =
     (let r = after_dotdots s
      in if starts_with ''node_modules/'' r then drop 13 r else s)"

text \<open>The part of \<open>extract\<close> after the \<open>try\<close> block.\<close>

definition standard_path :: "string \<Rightarrow> exn + string option" where
  "standard_path cleaned0 =
     (let cleaned = strip_node_modules (strip_protocol cleaned0) in
      if starts_with ''.'' cleaned then Inr None
      else if starts_with ''/'' cleaned \<and> \<not> starts_with ''//'' cleaned then Inr None
      else if isAliasPath cleaned then Inr None
      else
        let (p0, others) = split_on CHR ''/'' cleaned;
            pkgName =
              (if starts_with ''@'' cleaned
               then (case others of [] \<Rightarrow> JNull | p1 # _ \<Rightarrow> JStr (p0 @ ''/'' @ p1))
               else JStr p0)
        in normalizePackageName pkgName)"

text \<open>
  \<open>PackageNameExtractor.extract\<close>, under the name \<open>extract_name\<close> (\<open>extract\<close> is a
  reserved word of Isabelle). \<open>Inl\<close> is an exception that leaves the function; what
  the \<open>try\<close> block throws is caught and the standard extraction goes on.
\<close>

definition extract_name :: "url_parser \<Rightarrow> jsval \<Rightarrow> exn + string option" where
  "extract_name parse importPath =
     (if \<not> truthy importPath \<or> typeof importPath \<noteq> ''string'' then Inr None
      else
        case importPath of
          JStr s \<Rightarrow>
            let cleaned0 = js_trim s in
            if cleaned0 = [] then Inr None
            else
              let cleaned = stripQueryAndHash cleaned0 in
              if isAliasPath cleaned then Inr None
              else
                (case cdn_url parse cleaned of
                   Inr (Returned r) \<Rightarrow> Inr r
                 | Inr Continue \<Rightarrow> standard_path cleaned
                 | Inl e \<Rightarrow> standard_path cleaned)
        | _ \<Rightarrow> Inl TypeError)"

section \<open>PackageScanner: the package record\<close>

text \<open>
  \<open>INTERNAL_MODULE_PATTERNS\<close>: the parent package (\<open>null\<close> for some) and the pattern
  as a predicate on the tested string.
  \<open>/^prism-[a-z]+$/\<close> is \<open>prism_language\<close>; \<open>/^yt-.+$/\<close> is \<open>prefixed ''yt-''\<close>: the prefix,
  then at least one character, none of them a line terminator.
\<close>

definition prism_language :: "string \<Rightarrow> bool" where
  "prism_language s =
     (starts_with ''prism-'' s \<and> drop 6 s \<noteq> [] \<and> list_all is_lower_az (drop 6 s))"

definition prefixed :: "string \<Rightarrow> string \<Rightarrow> bool" where
  "prefixed p s =
     (starts_with p s \<and> drop (length p) s \<noteq> [] \<and>
      \<not> list_ex is_line_terminator (drop (length p) s))"

definition INTERNAL_MODULE_PATTERNS :: "(jsval \<times> (string \<Rightarrow> bool)) list" where
  "INTERNAL_MODULE_PATTERNS =
    [(JStr ''prismjs'', prism_language),
     (JStr ''highlight.js'', starts_with ''highlight.js/lib/languages/''),
     (JStr ''monaco-editor'', starts_with ''monaco-editor/esm/''),
     (JStr ''codemirror'', starts_with ''codemirror/mode/''),
     (JStr ''codemirror'', starts_with ''codemirror/addon/''),
     (JStr ''ace-builds'', starts_with ''ace/mode/''),
     (JStr ''ace-builds'', starts_with ''ace/theme/''),
     (JNull, \<lambda>s. s \<in> set [''dom-module'', ''custom-style'', ''ps-dom-if'', ''ps-dom-repeat'']),
     (JNull, \<lambda>s. list_ex (\<lambda>p. prefixed p s) [''iron-'', ''paper-'', ''neon-'', ''app-'']),
     (JNull, prefixed ''yt-''),
     (JNull, prefixed ''ytd-'')]"

text \<open>
  The \<open>packages\<close> map of the scanner: a JavaScript \<open>Map\<close> from the recorded name to the
  \<open>Set\<close> of its source labels, both in insertion order.
\<close>

type_synonym packages = "(jsval \<times> string list) list"

definition keys :: "packages \<Rightarrow> jsval set" where
  "keys m = fst ` set m"

definition map_has :: "packages \<Rightarrow> jsval \<Rightarrow> bool" where
  "map_has m k = (k \<in> keys m)"

definition set_add :: "string \<Rightarrow> string list \<Rightarrow> string list" where
  "set_add x xs = (if x \<in> set xs then xs else xs @ [x])"

fun internal_match :: "(jsval \<times> (string \<Rightarrow> bool)) list \<Rightarrow> jsval \<Rightarrow> packages \<Rightarrow> bool" where
  "internal_match [] packageName detectedPackages = False"
| "internal_match ((parent, pattern) # rest) packageName detectedPackages =
     (if pattern (to_string packageName)
      then (if map_has detectedPackages parent then True else True)
      else internal_match rest packageName detectedPackages)"

definition isInternalModule :: "jsval \<Rightarrow> packages \<Rightarrow> bool" where
  "isInternalModule packageName detectedPackages =
     (if \<not> truthy packageName then False
      else internal_match INTERNAL_MODULE_PATTERNS packageName detectedPackages)"

definition addPackage :: "jsval \<Rightarrow> string \<Rightarrow> packages \<Rightarrow> packages" where
  "addPackage packageName source m =
     (if \<not> truthy packageName then m
      else if isInternalModule packageName m then m
      else
        let m1 = (if \<not> map_has m packageName then m @ [(packageName, [])] else m)
        in map (\<lambda>(k, srcs). if k = packageName then (k, set_add source srcs) else (k, srcs)) m1)"

text \<open>
  \<open>scanContent\<close>. Its eight global patterns run over the content one after the other;
  \<open>captures\<close> is the list of the captured groups \<open>match[1]\<close> in the order the two loops
  visit them. Each capture that is not empty goes through the extractor, and the result,
  \<open>null\<close> included, to \<open>addPackage\<close>. An exception of the extractor would leave the
  function.
\<close>

fun scanContent :: "url_parser \<Rightarrow> string list \<Rightarrow> string \<Rightarrow> packages \<Rightarrow> exn + packages" where
  "scanContent parse [] source m = Inr m"
| "scanContent parse (capture # captures) source m =
     (if capture \<noteq> []
      then (case extract_name parse (JStr capture) of
              Inl e \<Rightarrow> Inl e
            | Inr pkg \<Rightarrow> scanContent parse captures source (addPackage (or_null pkg) source m))
      else scanContent parse captures source m)"

text \<open>\<open>scanUrls\<close>: only a truthy result is recorded, under the label \<open>CDN/URL: <url>\<close>.\<close>

fun scanUrls :: "url_parser \<Rightarrow> string list \<Rightarrow> packages \<Rightarrow> exn + packages" where
  "scanUrls parse [] m = Inr m"
| "scanUrls parse (u # urls) m =
     (case extract_name parse (JStr u) of
        Inl e \<Rightarrow> Inl e
      | Inr pkg \<Rightarrow>
          scanUrls parse urls
            (if truthy (or_null pkg) then addPackage (or_null pkg) (''CDN/URL: '' @ u) m else m))"

text \<open>
  \<open>scanSourceMap\<close>: every entry of the map's \<open>sources\<close>, of whatever type, goes through
  the extractor and the result to \<open>addPackage\<close>, under the label \<open>Source Map: <url>\<close>. An
  exception would end the loop in the \<open>catch\<close>, with what was recorded so far.
\<close>

fun scanSourceMap :: "url_parser \<Rightarrow> jsval list \<Rightarrow> string \<Rightarrow> packages \<Rightarrow> packages" where
  "scanSourceMap parse [] url m = m"
| "scanSourceMap parse (s # sources) url m =
     (case extract_name parse s of
        Inl e \<Rightarrow> m
      | Inr pkg \<Rightarrow> scanSourceMap parse sources url (addPackage (or_null pkg) (''Source Map: '' @ url) m))"

text \<open>
  \<open>parsePackageJson\<close>. The fetched document gives, for \<open>dependencies\<close> and for
  \<open>devDependencies\<close>, the list \<open>Object.keys\<close> of the member, or \<open>None\<close> when the member
  is missing. \<open>None\<close> for the document is a fetch or a parse that failed: the \<open>catch\<close>
  leaves the record as it is.
\<close>

record package_json =
  dependencies :: "string list option"
  devDependencies :: "string list option"

definition add_keys :: "string list option \<Rightarrow> packages \<Rightarrow> packages" where
  "add_keys member m =
     (case member of
        None \<Rightarrow> m
      | Some ds \<Rightarrow> foldl (\<lambda>acc d. addPackage (JStr d) ''/package.json'' acc) m ds)"

definition parsePackageJson :: "package_json option \<Rightarrow> packages \<Rightarrow> packages" where
  "parsePackageJson fetched m =
     (case fetched of
        None \<Rightarrow> m
      | Some json \<Rightarrow> add_keys (devDependencies json) (add_keys (dependencies json) m))"

section \<open>PackageScanner: the exposed-file probe\<close>










text \<open>
  An HTTP response as the probe reads it: \<open>ok\<close> is a status from 200 to 299.
\<close>

record response =
  status :: nat
  body :: string
  content_type :: "string option"



datatype level = LOW | MEDIUM | HIGH | CRITICAL







section \<open>Risk assessment\<close>

definition MIN_DOWNLOADS_SUSPICIOUS :: int where
  "MIN_DOWNLOADS_SUSPICIOUS = 100"

text \<open>
  The registry document of a package, as far as the assessment reads it: \<open>info.name\<close>,
  \<open>info.repository\<close> and \<open>info['dist-tags']?.latest\<close>. The weekly downloads are an integer.
\<close>

record registry_info =
  info_name :: jsval
  repository :: jsval
  latest :: jsval

text \<open>\<open>/[0-9]{3,}|[il1][o0]/\<close>: three digits in a row, or one of \<open>i l 1\<close> before \<open>o\<close> or \<open>0\<close>.\<close>

fun three_digits :: "string \<Rightarrow> bool" where
  "three_digits (a # b # c # rest) =
     ((is_digit a \<and> is_digit b \<and> is_digit c) \<or> three_digits (b # c # rest))"
| "three_digits s = False"

fun lookalike_pair :: "string \<Rightarrow> bool" where
  "lookalike_pair (a # b # rest) =
     ((a \<in> set ''il1'' \<and> b \<in> set ''o0'') \<or> lookalike_pair (b # rest))"
| "lookalike_pair s = False"

definition suspicious_name :: "string \<Rightarrow> bool" where
  "suspicious_name s = (three_digits s \<or> lookalike_pair s)"

record assessment =
  suspicious :: bool
  riskLevel :: level
  riskReasons :: "string list"

text \<open>
  \<open>PackageScanner.assessRisk\<close>. The three variables are assigned in the order of the
  source: the second \<open>if\<close> overwrites the level the first has set.
\<close>

definition assessRisk :: "registry_info \<Rightarrow> int \<Rightarrow> assessment" where
  "assessRisk info downloads =
     (let (suspicious1, level1, reasons1) =
            (if downloads < MIN_DOWNLOADS_SUSPICIOUS \<and> \<not> truthy (repository info)
             then (True, HIGH, [''Low downloads + No Repo''])
             else (False, LOW, []));
          (suspicious2, level2, reasons2) =
            (if suspicious_name (to_string (info_name info))
             then (True, MEDIUM, reasons1 @ [''Suspicious name pattern''])
             else (suspicious1, level1, reasons1))
      in \<lparr>suspicious = suspicious2,
          riskLevel = (if suspicious2 then level2 else LOW),
          riskReasons = reasons2\<rparr>)"

text \<open>
  \<open>MessageHandler.handleAnalyzePackage\<close> of the background script. A fetch or a
  \<open>json()\<close> call either throws, with a message, or gives its value.
\<close>

datatype 'a attempt = Threw string | Got 'a

record registry_response =
  reg_status :: nat
  reg_json :: "registry_info attempt"

record downloads_response =
  dl_status :: nat
  dl_json :: "int attempt"

record risk_finding = assessment +
  finding_name :: string
  finding_version :: "jsval option"
  weeklyDownloads :: "int option"
  isUnregistered :: "bool option"
  finding_sources :: "string list"

datatype analysis = Finding risk_finding | Failure string string "string list"

function decimal :: "nat \<Rightarrow> string" where
  "decimal n =
     (if n < 10 then [char_of (48 + n)] else decimal (n div 10) @ [char_of (48 + n mod 10)])"
  by pat_completeness auto
termination
  by (relation "measure id") auto

definition fetch_downloads :: "downloads_response attempt \<Rightarrow> int" where
  "fetch_downloads dl =
     (case dl of
        Threw msg \<Rightarrow> 0
      | Got dlRes \<Rightarrow>
          if 200 \<le> dl_status dlRes \<and> dl_status dlRes \<le> 299
          then (case dl_json dlRes of Threw msg \<Rightarrow> 0 | Got d \<Rightarrow> d)
          else 0)"

text \<open>
  The assessment in step 3 of the handler repeats the statements of \<open>assessRisk\<close> with
  the same threshold, so the model calls \<open>assessRisk\<close> there.
\<close>

definition handleAnalyzePackage ::
  "string \<Rightarrow> string list \<Rightarrow> registry_response attempt \<Rightarrow> downloads_response attempt \<Rightarrow> analysis" where
  "handleAnalyzePackage name sources reg dl =
     (case reg of
        Threw msg \<Rightarrow> Failure name msg sources
      | Got res \<Rightarrow>
          if reg_status res = 404
          then Finding \<lparr>suspicious = True, riskLevel = CRITICAL,
                 riskReasons = [''Package not found on npmjs.org - potential dependency confusion''],
                 finding_name = name, finding_version = None, weeklyDownloads = None,
                 isUnregistered = Some True, finding_sources = sources\<rparr>
          else if reg_status res = 429 then Failure name ''Rate Limit Exceeded (429)'' sources
          else if \<not> (200 \<le> reg_status res \<and> reg_status res \<le> 299)
          then Failure name (''Registry Error ('' @ decimal (reg_status res) @ '')'') sources
          else
            (case reg_json res of
               Threw msg \<Rightarrow> Failure name msg sources
             | Got info \<Rightarrow>
                 let downloads = fetch_downloads dl;
                     a = assessRisk info downloads
                 in Finding \<lparr>suspicious = suspicious a, riskLevel = riskLevel a,
                      riskReasons = riskReasons a,
                      finding_name = name,
                      finding_version =
                        Some (if truthy (latest info) then latest info else JStr ''?''),
                      weeklyDownloads = Some downloads,
                      isUnregistered = None, finding_sources = sources\<rparr>))"

section \<open>RateLimiter\<close>

text \<open>
  Times are the milliseconds of \<open>Date.now()\<close>. \<open>waitForSlot\<close> is an \<open>async\<close> function on
  one thread: an invocation runs without interruption from its first line to its
  \<open>await\<close> or to its \<open>push\<close>. \<open>attempt_slot\<close> is one invocation of \<open>waitForSlot\<close> at the
  time \<open>now\<close>: it either records the admission and returns, or asks for a timer of
  \<open>waitTime\<close> milliseconds, behind which the caller invokes \<open>waitForSlot\<close> again. \<open>None\<close>
  as the wait is \<open>NaN\<close>, from an empty \<open>requests\<close> array.
\<close>

record limiter =
  maxRequests :: nat
  timeWindow :: int
  requests :: "int list"

definition RateLimiter :: "nat \<Rightarrow> int \<Rightarrow> limiter" where
  "RateLimiter m w = \<lparr>maxRequests = m, timeWindow = w, requests = []\<rparr>"

datatype slot = Admitted | Delayed "int option"

definition attempt_slot :: "limiter \<Rightarrow> int \<Rightarrow> slot \<times> limiter" where
  "attempt_slot lim now =
     (let live = filter (\<lambda>time. now - time < timeWindow lim) (requests lim)
      in if length live \<ge> maxRequests lim
         then (Delayed (case live of
                          [] \<Rightarrow> None
                        | oldestRequest # _ \<Rightarrow> Some (timeWindow lim - (now - oldestRequest) + 100)),
               lim\<lparr>requests := live\<rparr>)
         else (Admitted, lim\<lparr>requests := live @ [now]\<rparr>))"

text \<open>\<open>setTimeout\<close> with a \<open>NaN\<close> or negative delay fires at once.\<close>

definition timer_delay :: "int option \<Rightarrow> int" where
  "timer_delay w = (case w of None \<Rightarrow> 0 | Some waitTime \<Rightarrow> max 0 waitTime)"

text \<open>
  One caller alone, its timers firing on time: \<open>waitForSlot\<close> follows the invocations of
  one call to its return and gives the admission time and the limiter afterwards, or
  \<open>None\<close> if the retries never end.
\<close>

partial_function (option) waitForSlot :: "limiter \<Rightarrow> int \<Rightarrow> (int \<times> limiter) option" where
  "waitForSlot lim now =
     (case attempt_slot lim now of
        (Admitted, lim') \<Rightarrow> Some (now, lim')
      | (Delayed w, lim') \<Rightarrow> waitForSlot lim' (now + timer_delay w))"

text \<open>
  Any number of callers of one limiter, interleaved in any way. Each caller calls
  \<open>waitForSlot\<close> once and has a number. \<open>due\<close> holds the callers that await a timer, with
  the time the timer is set for; \<open>granted\<close> lists, in order, the callers whose call has
  returned, with the time of their admission. A pair \<open>(c, now)\<close> of a schedule is the
  caller \<open>c\<close> invoking \<open>waitForSlot\<close> at the time \<open>now\<close>: its call, or the retry behind its
  timer, which may fire late but not early. The event loop makes no invocation for a
  caller whose call has returned or whose timer is not due: such a pair changes nothing.
\<close>

record callers =
  shared :: limiter
  due :: "nat \<rightharpoonup> int"
  granted :: "(nat \<times> int) list"

definition start :: "nat \<Rightarrow> int \<Rightarrow> callers" where
  "start m w = \<lparr>shared = RateLimiter m w, due = Map.empty, granted = []\<rparr>"

definition invoke :: "callers \<Rightarrow> nat \<times> int \<Rightarrow> callers" where
  "invoke s e =
     (let c = fst e; now = snd e in
      if c \<in> fst ` set (granted s) then s
      else if (case due s c of None \<Rightarrow> False | Some d \<Rightarrow> now < d) then s
      else
        (case attempt_slot (shared s) now of
           (Admitted, lim') \<Rightarrow>
             s\<lparr>shared := lim', due := (due s)(c := None), granted := granted s @ [(c, now)]\<rparr>
         | (Delayed w, lim') \<Rightarrow>
             s\<lparr>shared := lim', due := (due s)(c \<mapsto> now + timer_delay w)\<rparr>))"

fun run_schedule :: "callers \<Rightarrow> (nat \<times> int) list \<Rightarrow> callers" where
  "run_schedule s [] = s"
| "run_schedule s (e # es) = run_schedule (invoke s e) es"

definition admission_times :: "callers \<Rightarrow> int list" where
  "admission_times s = map snd (granted s)"

text \<open>
  The number of the times \<open>ts\<close> in the window \<open>[a, a + w)\<close>, and in the closed interval
  \<open>[a, a + w]\<close>.
\<close>

definition in_window :: "int \<Rightarrow> int \<Rightarrow> int list \<Rightarrow> nat" where
  "in_window a w ts = length (filter (\<lambda>t. a \<le> t \<and> t < a + w) ts)"

definition in_closed_interval :: "int \<Rightarrow> int \<Rightarrow> int list \<Rightarrow> nat" where
  "in_closed_interval a w ts = length (filter (\<lambda>t. a \<le> t \<and> t \<le> a + w) ts)"

section \<open>Characters and strings\<close>

lemmas char_class_defs = is_ws_def is_line_terminator_def js_lower_def ascii_fold_def
  is_digit_def is_lower_az_def is_upper_az_def

lemma name_char_facts:
  assumes "name_char c"
  shows "\<not> is_ws c" and "\<not> is_line_terminator c" and "js_lower c = c"
    and "c \<noteq> CHR ''/''" and "c \<noteq> CHR ''@''" and "c \<noteq> CHR '':''" and "c \<noteq> CHR ''#''"
    and "c \<noteq> CHR ''?''" and "c \<noteq> CHR 0x5C"
  using assms by (auto simp: name_char_def char_class_defs Let_def)

lemma name_start_char: "name_start c \<Longrightarrow> name_char c \<and> c \<noteq> CHR ''.''"
  by (auto simp: name_start_def name_char_def char_class_defs Let_def)

lemma name_or_sep:
  assumes "name_char c \<or> c = CHR ''@'' \<or> c = CHR ''/''"
  shows "\<not> is_ws c" and "js_lower c = c" and "c \<noteq> CHR '':''" and "c \<noteq> CHR ''#''"
    and "c \<noteq> CHR ''?''" and "c \<noteq> CHR 0x5C"
  using assms by (auto simp: name_char_def char_class_defs Let_def)

lemma split_on_absent: "d \<notin> set s \<Longrightarrow> split_on d s = (s, [])"
  by (induction s) auto

lemma split_on_first:
  "d \<notin> set a \<Longrightarrow> split_on d (a @ d # b) = (a, fst (split_on d b) # snd (split_on d b))"
  by (induction a) (auto split: prod.splits)

lemma starts_with_set: "starts_with p s \<Longrightarrow> set p \<subseteq> set s"
  by (induction p s rule: starts_with.induct) auto

lemma js_trim_plain: "\<forall>c \<in> set s. \<not> is_ws c \<Longrightarrow> js_trim s = s"
proof -
  assume a: "\<forall>c \<in> set s. \<not> is_ws c"
  have d: "\<And>xs. \<forall>c \<in> set xs. \<not> is_ws c \<Longrightarrow> dropWhile is_ws xs = xs"
    by (case_tac xs) auto
  from a have "dropWhile is_ws s = s" by (rule d)
  moreover from a have "dropWhile is_ws (rev s) = rev s" by (intro d) simp
  ultimately show ?thesis by (simp add: js_trim_def)
qed

lemma toLowerCase_plain: "\<forall>c \<in> set s. js_lower c = c \<Longrightarrow> toLowerCase s = s"
  by (simp add: toLowerCase_def map_idI)

lemma plain_trim:
  assumes "\<forall>c \<in> set s. name_char c \<or> c = CHR ''@'' \<or> c = CHR ''/''"
  shows "js_trim s = s"
proof (rule js_trim_plain)
  show "\<forall>c \<in> set s. \<not> is_ws c" using assms name_or_sep(1) by blast
qed

lemma plain_lower:
  assumes "\<forall>c \<in> set s. name_char c \<or> c = CHR ''@'' \<or> c = CHR ''/''"
  shows "toLowerCase s = s"
proof (rule toLowerCase_plain)
  show "\<forall>c \<in> set s. js_lower c = c" using assms name_or_sep(2) by blast
qed

lemma plain_no_colon:
  assumes "\<forall>c \<in> set s. name_char c \<or> c = CHR ''@'' \<or> c = CHR ''/''"
  shows "CHR '':'' \<notin> set s" and "CHR ''#'' \<notin> set s" and "CHR ''?'' \<notin> set s"
    and "CHR 0x5C \<notin> set s"
proof -
  show "CHR '':'' \<notin> set s" using assms name_or_sep(3) by blast
  show "CHR ''#'' \<notin> set s" using assms name_or_sep(4) by blast
  show "CHR ''?'' \<notin> set s" using assms name_or_sep(5) by blast
  show "CHR 0x5C \<notin> set s" using assms name_or_sep(6) by blast
qed

lemma stripQueryAndHash_plain:
  assumes "CHR ''#'' \<notin> set s" and "CHR ''?'' \<notin> set s"
  shows "stripQueryAndHash s = s"
  using assms by (simp add: stripQueryAndHash_def split_on_absent)

lemma no_colon_protocol:
  assumes "CHR '':'' \<notin> set s"
  shows "strip_protocol s = s" and "\<not> starts_with ''http://'' s" and "\<not> starts_with ''https://'' s"
proof -
  have "\<And>p. CHR '':'' \<in> set p \<Longrightarrow> \<not> starts_with p s"
    using assms starts_with_set by blast
  then show "strip_protocol s = s" and "\<not> starts_with ''http://'' s" and "\<not> starts_with ''https://'' s"
    by (simp_all add: strip_protocol_def)
qed

lemma no_slash_prefix:
  assumes "CHR ''/'' \<notin> set s" and "CHR ''/'' \<in> set p"
  shows "\<not> starts_with p s"
  using assms starts_with_set by blast

lemma drive_path_colon: "drive_path s \<Longrightarrow> \<exists>a c rest. s = a # CHR '':'' # c # rest"
  by (auto simp: drive_path_def split: list.splits)

lemma drive_path_second: "y \<noteq> CHR '':'' \<Longrightarrow> \<not> drive_path (x # y # zs)"
  by (simp add: drive_path_def split: list.splits)

lemma after_dotdots_other: "c \<noteq> CHR ''.'' \<Longrightarrow> after_dotdots (c # cs) = c # cs"
  by (cases "c # cs" rule: after_dotdots.cases) auto

section \<open>The extractor never throws\<close>

lemma standard_path_total: "\<exists>r. standard_path c = Inr r"
  by (auto simp: standard_path_def Let_def normalizePackageName_def split: prod.splits list.splits)

lemma extract_name_total: "\<exists>r. extract_name parse v = Inr r"
proof (cases v)
  case (JStr s)
  obtain r where r: "standard_path (stripQueryAndHash (js_trim s)) = Inr r"
    using standard_path_total by blast
  show ?thesis
    by (simp add: JStr extract_name_def Let_def r split: sum.splits flow.splits)
qed (simp_all add: extract_name_def)

text \<open>
  C9: \<open>extract\<close> is total. For every value, a string or not, and whatever the URL
  parser does (it may throw), the call returns \<open>null\<close> or a string, and no exception
  leaves it.
\<close>

theorem extract_never_throws: "\<exists>r. extract_name parse v = Inr r"
  by (rule extract_name_total)

theorem extract_never_throws_witness:
  "(\<exists>r. extract_name (\<lambda>s. None) (JStr ''http://['') = Inr r) \<and>
   (\<exists>r. extract_name url_on_base (JObj 0) = Inr r) \<and>
   (\<exists>r. extract_name url_on_base JNull = Inr r)"
  using extract_never_throws [of "\<lambda>s. None" "JStr ''http://[''"]
    extract_never_throws [of url_on_base "JObj 0"]
    extract_never_throws [of url_on_base JNull]
  by (intro conjI)

section \<open>The extractor on the documented examples\<close>

text \<open>
  A sub-path under a first segment that is no alias root is discarded: \<open>lodash/fp\<close>
  gives \<open>lodash\<close>, as \<open>test_extraction.js\<close> expects.
\<close>

lemma extract_lodash_subpath:
  "extract_name url_on_base (JStr ''lodash/fp'') = Inr (Some ''lodash'')"
  by code_simp

text \<open>
  C1, on the code: for the input \<open>libs/my-lib@2.0.0\<close> the extractor returns \<open>null\<close>,
  whatever the URL parser does, where the claim and the expectation of
  \<open>test_extraction.js\<close> have \<open>libs\<close>. The first segment \<open>libs\<close> is one of
  \<open>INTERNAL_ALIAS_ROOTS\<close>, and \<open>isAliasPath\<close> rejects a path under such a root before
  any segment is taken.
\<close>

theorem extract_libs_subpath_null:
  "extract_name parse (JStr ''libs/my-lib@2.0.0'') = Inr None"
  by (simp add: extract_name_def js_trim_def stripQueryAndHash_def isAliasPath_def
      drive_path_def toLowerCase_def char_class_defs INTERNAL_ALIAS_PREFIXES_def
      INTERNAL_ALIAS_ROOTS_def)

theorem extract_libs_subpath_null_witness:
  "extract_name url_on_base (JStr ''libs/my-lib@2.0.0'') = Inr None \<and>
   extract_name (\<lambda>s. Some \<lparr>hostname = ''unpkg.com'', pathname = ''/libs/my-lib@2.0.0''\<rparr>)
     (JStr ''libs/my-lib@2.0.0'') = Inr None"
  using extract_libs_subpath_null [of url_on_base]
    extract_libs_subpath_null
      [of "\<lambda>s. Some \<lparr>hostname = ''unpkg.com'', pathname = ''/libs/my-lib@2.0.0''\<rparr>"]
  by (intro conjI)

section \<open>Canonical names\<close>

lemma canonical_cases:
  assumes "canonical n"
  obtains (unscoped) "name_segment n"
  | (scoped) scope name where "n = CHR ''@'' # scope @ CHR ''/'' # name"
      and "name_segment scope" and "name_segment name"
proof (cases n)
  case Nil
  with assms show ?thesis by (simp add: canonical_def)
next
  case (Cons c cs)
  show ?thesis
  proof (cases "c = CHR ''@''")
    case False
    with assms Cons have "name_segment n" by (simp add: canonical_def)
    then show ?thesis by (rule unscoped)
  next
    case True
    let ?scope = "takeWhile (\<lambda>x. x \<noteq> CHR ''/'') cs"
    let ?after = "dropWhile (\<lambda>x. x \<noteq> CHR ''/'') cs"
    from assms Cons True have seg: "name_segment ?scope"
      and after: "case ?after of [] \<Rightarrow> False | slash # name \<Rightarrow> name_segment name"
      by (simp_all add: canonical_def)
    from after obtain slash name where a: "?after = slash # name" and nm: "name_segment name"
      by (cases ?after) auto
    have "slash = CHR ''/''"
      using hd_dropWhile [of "\<lambda>x. x \<noteq> CHR ''/''" cs] a by auto
    moreover have "cs = ?scope @ ?after" by simp
    ultimately have "n = CHR ''@'' # ?scope @ CHR ''/'' # name"
      using Cons True a by simp
    then show ?thesis using seg nm by (rule scoped)
  qed
qed

lemma name_segment_chars:
  assumes "name_segment s"
  shows "s \<noteq> []" and "\<forall>c \<in> set s. name_char c" and "name_start (hd s)"
  using assms by (auto simp: name_segment_def list_all_iff name_start_char split: list.splits)

lemma scoped_chars:
  assumes "name_segment scope" and "name_segment name"
  shows "\<forall>c \<in> set (CHR ''@'' # scope @ CHR ''/'' # name).
           name_char c \<or> c = CHR ''@'' \<or> c = CHR ''/''"
  using name_segment_chars(2) [OF assms(1)] name_segment_chars(2) [OF assms(2)] by auto

lemma unscoped_chars:
  assumes "name_segment s"
  shows "\<forall>c \<in> set s. name_char c \<or> c = CHR ''@'' \<or> c = CHR ''/''"
  using name_segment_chars(2) [OF assms] by auto

lemma scoped_split:
  assumes "name_segment scope"
  shows "split_on CHR ''/'' (CHR ''@'' # scope @ CHR ''/'' # name) =
      (CHR ''@'' # scope, fst (split_on CHR ''/'' name) # snd (split_on CHR ''/'' name))"
proof -
  have "CHR ''/'' \<notin> set scope"
    using name_segment_chars(2) [OF assms] name_char_facts(4) by blast
  then have "CHR ''/'' \<notin> set (CHR ''@'' # scope)" by simp
  from split_on_first [OF this, of name] show ?thesis by simp
qed

lemma not_cdn_continue:
  assumes "base_host parse s" and "\<not> web_url s"
  shows "cdn_url parse s = Inr Continue"
  using assms by (auto simp: base_host_def cdn_url_def Let_def split: option.splits)

lemma isAliasPath_unscoped:
  assumes chars: "\<forall>c \<in> set s. name_char c" and "s \<noteq> ''~''"
  shows "\<not> isAliasPath s"
proof -
  have trim: "js_trim s = s" and lower: "toLowerCase s = s"
    using chars by (simp_all add: js_trim_plain toLowerCase_plain name_char_facts)
  have slash: "CHR ''/'' \<notin> set s"
    using chars name_char_facts(4) by blast
  have colon: "CHR '':'' \<notin> set s"
    using chars name_char_facts(6) by blast
  have bs: "CHR 0x5C \<notin> set s"
    using chars name_char_facts(9) by blast
  have "\<not> drive_path s"
  proof
    assume "drive_path s"
    then obtain a c rest where "s = a # CHR '':'' # c # rest"
      using drive_path_colon by blast
    with colon show False by simp
  qed
  moreover have "\<not> starts_with [CHR 0x5C, CHR 0x5C] s"
  proof
    assume "starts_with [CHR 0x5C, CHR 0x5C] s"
    from starts_with_set [OF this] bs show False by simp
  qed
  moreover have "\<not> starts_with ''/'' s" "\<not> starts_with ''@/'' s" "\<not> starts_with ''~/'' s"
      "\<not> starts_with ''~~/'' s"
    using slash by (simp_all add: no_slash_prefix)
  moreover have "split_on CHR ''/'' s = (s, [])" using slash by (rule split_on_absent)
  ultimately show ?thesis
    using assms(2) by (simp add: isAliasPath_def trim lower INTERNAL_ALIAS_PREFIXES_def)
qed

lemma isAliasPath_scoped:
  assumes "name_segment scope" and "name_segment name"
  shows "\<not> isAliasPath (CHR ''@'' # scope @ CHR ''/'' # name)"
proof -
  let ?s = "CHR ''@'' # scope @ CHR ''/'' # name"
  obtain a as where scope: "scope = a # as"
    using name_segment_chars(1) [OF assms(1)] by (cases scope) auto
  have a: "name_char a"
    using name_segment_chars(2) [OF assms(1)] by (simp add: scope)
  have a_colon: "a \<noteq> CHR '':''"
    using a name_char_facts(6) by blast
  have a_slash: "a \<noteq> CHR ''/''"
    using a name_char_facts(4) by blast
  note chars = scoped_chars [OF assms]
  have trim: "js_trim ?s = ?s" using chars by (rule plain_trim)
  have lower: "toLowerCase ?s = ?s" using chars by (rule plain_lower)
  have root: "toLowerCase (CHR ''@'' # scope) = CHR ''@'' # scope"
  proof (rule plain_lower)
    show "\<forall>c \<in> set (CHR ''@'' # scope). name_char c \<or> c = CHR ''@'' \<or> c = CHR ''/''"
      using name_segment_chars(2) [OF assms(1)] by auto
  qed
  have drive: "\<not> drive_path ?s"
    using a_colon by (simp add: scope drive_path_second)
  note parts = scoped_split [OF assms(1), of name]
  have pre: "\<not> starts_with ''/'' ?s" "\<not> starts_with [CHR 0x5C, CHR 0x5C] ?s"
    "\<not> list_ex (\<lambda>prefix. starts_with prefix ?s) INTERNAL_ALIAS_PREFIXES"
    "?s \<noteq> ''~''" "\<not> starts_with ''~/'' ?s"
    using a_slash by (simp_all add: INTERNAL_ALIAS_PREFIXES_def scope)
  have roots: "CHR ''@'' # scope \<notin> set INTERNAL_ALIAS_ROOTS"
    by (simp add: INTERNAL_ALIAS_ROOTS_def)
  show ?thesis
    using drive pre roots
    by (simp add: isAliasPath_def Let_def trim lower parts root del: split_on.simps)
qed

lemma normalize_name_canonical:
  "normalize_name s = Some r \<Longrightarrow> canonical r \<and> r \<notin> set NODE_BUILTINS"
  by (auto simp: normalize_name_def Let_def split: if_splits option.splits prod.splits)

lemma normalizePackageName_canonical:
  "normalizePackageName v = Inr (Some r) \<Longrightarrow> canonical r \<and> r \<notin> set NODE_BUILTINS"
  by (cases v) (auto simp: normalizePackageName_def dest: normalize_name_canonical split: if_splits)

lemma map_sum_Returned: "map_sum id Returned x = Inr (Returned y) \<longleftrightarrow> x = Inr y"
  by (cases x) auto

lemma cdn_url_canonical:
  "cdn_url parse c = Inr (Returned (Some r)) \<Longrightarrow> canonical r \<and> r \<notin> set NODE_BUILTINS"
  by (auto simp: cdn_url_def Let_def map_sum_Returned dest!: normalizePackageName_canonical
      split: option.splits if_splits list.splits)

lemma standard_path_canonical:
  "standard_path c = Inr (Some r) \<Longrightarrow> canonical r \<and> r \<notin> set NODE_BUILTINS"
  by (auto simp: standard_path_def Let_def dest!: normalizePackageName_canonical
      split: if_splits prod.splits list.splits)

lemma extract_name_canonical:
  assumes "extract_name parse v = Inr (Some r)"
  shows "canonical r \<and> r \<notin> set NODE_BUILTINS"
proof (cases v)
  case (JStr s)
  let ?c = "stripQueryAndHash (js_trim s)"
  from assms JStr have "cdn_url parse ?c = Inr (Returned (Some r)) \<or> standard_path ?c = Inr (Some r)"
    by (auto simp: extract_name_def Let_def split: if_splits sum.splits flow.splits)
  then show ?thesis
    using cdn_url_canonical standard_path_canonical by blast
qed (use assms in \<open>simp_all add: extract_name_def\<close>)

lemma normalize_unscoped:
  assumes "name_segment n" and "n \<notin> set NODE_BUILTINS"
  shows "normalize_name n = Some n"
proof -
  obtain c cs where n: "n = c # cs" and c: "name_start c"
    using assms(1) by (cases n) (auto simp: name_segment_def)
  have c_at: "c \<noteq> CHR ''@''"
    using c name_start_char name_char_facts(5) by blast
  have no_at: "CHR ''@'' \<notin> set n"
    using name_segment_chars(2) [OF assms(1)] name_char_facts(5) by blast
  have canon: "canonical n"
    using assms(1) c_at by (simp add: canonical_def n)
  have "\<not> starts_with ''@'' n" using c_at by (simp add: n)
  then show ?thesis
    using no_at canon assms(2) by (simp add: normalize_name_def)
qed

lemma standard_path_unscoped:
  assumes "name_segment n" and "n \<notin> set NODE_BUILTINS" and "n \<noteq> ''~''"
  shows "standard_path n = Inr (Some n)"
proof -
  obtain c cs where n: "n = c # cs" and c: "name_start c"
    using assms(1) by (cases n) (auto simp: name_segment_def)
  have c_dot: "c \<noteq> CHR ''.''" using c name_start_char by blast
  have c_name: "name_char c" using c name_start_char by blast
  have c_at: "c \<noteq> CHR ''@''" using c_name name_char_facts(5) by blast
  have c_slash: "c \<noteq> CHR ''/''" using c_name name_char_facts(4) by blast
  note chars = name_segment_chars(2) [OF assms(1)]
  have slash: "CHR ''/'' \<notin> set n" using chars name_char_facts(4) by blast
  have colon: "CHR '':'' \<notin> set n" using chars name_char_facts(6) by blast
  have proto: "strip_protocol n = n" using colon by (rule no_colon_protocol(1))
  have "after_dotdots n = n" using c_dot by (simp add: n after_dotdots_other)
  moreover have "\<not> starts_with ''node_modules/'' n"
    using slash by (rule no_slash_prefix) simp
  ultimately have modules: "strip_node_modules n = n"
    by (simp add: strip_node_modules_def)
  have firsts: "\<not> starts_with ''.'' n" "\<not> starts_with ''/'' n" "\<not> starts_with ''@'' n"
    using c_dot c_at c_slash by (simp_all add: n)
  have no_alias: "\<not> isAliasPath n" using chars assms(3) by (rule isAliasPath_unscoped)
  have parts: "split_on CHR ''/'' n = (n, [])" using slash by (rule split_on_absent)
  have norm: "normalizePackageName (JStr n) = Inr (Some n)"
    using normalize_unscoped [OF assms(1) assms(2)] by (simp add: normalizePackageName_def n)
  show ?thesis
    unfolding standard_path_def proto modules Let_def
    using firsts no_alias by (simp add: parts norm del: split_on.simps)
qed

lemma extract_name_unscoped:
  assumes "name_segment n" and "n \<notin> set NODE_BUILTINS" and "n \<noteq> ''~''"
    and "base_host parse n"
  shows "extract_name parse (JStr n) = Inr (Some n)"
proof -
  obtain c cs where n: "n = c # cs" and c: "name_start c"
    using assms(1) by (cases n) (auto simp: name_segment_def)
  have c_slash: "c \<noteq> CHR ''/''" using c name_start_char name_char_facts(4) by blast
  note chars = name_segment_chars(2) [OF assms(1)]
  note sep = unscoped_chars [OF assms(1)]
  have trim: "js_trim n = n" using sep by (rule plain_trim)
  have strip: "stripQueryAndHash n = n"
    using plain_no_colon(2) [OF sep] plain_no_colon(3) [OF sep] by (rule stripQueryAndHash_plain)
  have no_alias: "\<not> isAliasPath n" using chars assms(3) by (rule isAliasPath_unscoped)
  have "\<not> starts_with ''//'' n" using c_slash by (simp add: n)
  then have "\<not> web_url n"
    using no_colon_protocol(2, 3) [OF plain_no_colon(1) [OF sep]] by (simp add: web_url_def)
  with assms(4) have cdn: "cdn_url parse n = Inr Continue" by (rule not_cdn_continue)
  have std: "standard_path n = Inr (Some n)"
    using assms(1) assms(2) assms(3) by (rule standard_path_unscoped)
  have "n \<noteq> []" by (simp add: n)
  then show ?thesis
    using no_alias by (simp add: extract_name_def trim strip cdn std)
qed

lemma scoped_match_canonical:
  assumes "name_segment scope" and "name_segment name"
  shows "scoped_match (CHR ''@'' # scope @ CHR ''/'' # name) = Some (CHR ''@'' # scope, name)"
proof -
  have sc: "\<forall>c \<in> set scope. c \<noteq> CHR ''/''"
    using name_segment_chars(2) [OF assms(1)] name_char_facts(4) by blast
  have tw: "takeWhile (\<lambda>x. x \<noteq> CHR ''/'') (scope @ CHR ''/'' # name) = scope"
    using sc by (simp add: takeWhile_append2)
  have dw: "dropWhile (\<lambda>x. x \<noteq> CHR ''/'') (scope @ CHR ''/'' # name) = CHR ''/'' # name"
    using sc by (simp add: dropWhile_append2)
  have lt: "\<not> list_ex is_line_terminator name"
    using name_segment_chars(2) [OF assms(2)] name_char_facts(2) by (auto simp: list_ex_iff)
  show ?thesis
    using name_segment_chars(1) [OF assms(1)] name_segment_chars(1) [OF assms(2)] lt
    by (simp add: scoped_match_def tw dw)
qed

lemma normalize_scoped:
  assumes "name_segment scope" and "name_segment name"
    and "canonical (CHR ''@'' # scope @ CHR ''/'' # name)"
    and "CHR ''@'' # scope @ CHR ''/'' # name \<notin> set NODE_BUILTINS"
  shows "normalize_name (CHR ''@'' # scope @ CHR ''/'' # name) =
         Some (CHR ''@'' # scope @ CHR ''/'' # name)"
proof -
  have "CHR ''@'' \<notin> set name"
    using name_segment_chars(2) [OF assms(2)] name_char_facts(5) by blast
  then have version: "split_on CHR ''@'' name = (name, [])" by (rule split_on_absent)
  show ?thesis
    using assms(3) assms(4)
    by (simp add: normalize_name_def scoped_match_canonical [OF assms(1) assms(2)] version)
qed

lemma standard_path_scoped:
  assumes "name_segment scope" and "name_segment name"
    and "canonical (CHR ''@'' # scope @ CHR ''/'' # name)"
    and "CHR ''@'' # scope @ CHR ''/'' # name \<notin> set NODE_BUILTINS"
  shows "standard_path (CHR ''@'' # scope @ CHR ''/'' # name) =
         Inr (Some (CHR ''@'' # scope @ CHR ''/'' # name))"
proof -
  let ?n = "CHR ''@'' # scope @ CHR ''/'' # name"
  note sep = scoped_chars [OF assms(1) assms(2)]
  have proto: "strip_protocol ?n = ?n"
    using plain_no_colon(1) [OF sep] by (rule no_colon_protocol(1))
  have "after_dotdots ?n = ?n" by (simp add: after_dotdots_other)
  moreover have "\<not> starts_with ''node_modules/'' ?n" by simp
  ultimately have modules: "strip_node_modules ?n = ?n"
    by (simp add: strip_node_modules_def)
  have firsts: "\<not> starts_with ''.'' ?n" "\<not> starts_with ''/'' ?n" "starts_with ''@'' ?n"
    by simp_all
  have no_alias: "\<not> isAliasPath ?n" using assms(1) assms(2) by (rule isAliasPath_scoped)
  have "CHR ''/'' \<notin> set name"
    using name_segment_chars(2) [OF assms(2)] name_char_facts(4) by blast
  then have "split_on CHR ''/'' name = (name, [])" by (rule split_on_absent)
  then have parts: "split_on CHR ''/'' ?n = (CHR ''@'' # scope, [name])"
    using scoped_split [OF assms(1), of name] by simp
  have norm: "normalizePackageName (JStr ?n) = Inr (Some ?n)"
    using normalize_scoped [OF assms] by (simp add: normalizePackageName_def)
  show ?thesis
    unfolding standard_path_def proto modules Let_def
    using firsts no_alias norm by (simp add: parts del: split_on.simps)
qed

lemma extract_name_scoped:
  assumes "name_segment scope" and "name_segment name"
    and "canonical (CHR ''@'' # scope @ CHR ''/'' # name)"
    and "CHR ''@'' # scope @ CHR ''/'' # name \<notin> set NODE_BUILTINS"
    and "base_host parse (CHR ''@'' # scope @ CHR ''/'' # name)"
  shows "extract_name parse (JStr (CHR ''@'' # scope @ CHR ''/'' # name)) =
         Inr (Some (CHR ''@'' # scope @ CHR ''/'' # name))"
proof -
  let ?n = "CHR ''@'' # scope @ CHR ''/'' # name"
  note sep = scoped_chars [OF assms(1) assms(2)]
  have trim: "js_trim ?n = ?n" using sep by (rule plain_trim)
  have strip: "stripQueryAndHash ?n = ?n"
    using plain_no_colon(2) [OF sep] plain_no_colon(3) [OF sep] by (rule stripQueryAndHash_plain)
  have no_alias: "\<not> isAliasPath ?n" using assms(1) assms(2) by (rule isAliasPath_scoped)
  have "\<not> starts_with ''//'' ?n" by simp
  then have "\<not> web_url ?n"
    using no_colon_protocol(2, 3) [OF plain_no_colon(1) [OF sep]] by (simp add: web_url_def)
  with assms(5) have cdn: "cdn_url parse ?n = Inr Continue" by (rule not_cdn_continue)
  have std: "standard_path ?n = Inr (Some ?n)"
    using assms(1) assms(2) assms(3) assms(4) by (rule standard_path_scoped)
  show ?thesis
    using no_alias by (simp add: extract_name_def trim strip cdn std)
qed

lemma extract_name_identity:
  assumes "canonical n" and "n \<notin> set NODE_BUILTINS" and "n \<noteq> ''~''" and "base_host parse n"
  shows "extract_name parse (JStr n) = Inr (Some n)"
  using assms(1)
proof (cases rule: canonical_cases)
  case unscoped
  then show ?thesis using assms(2) assms(3) assms(4) by (rule extract_name_unscoped)
next
  case (scoped scope name)
  show ?thesis
    unfolding scoped(1)
    using scoped(2) scoped(3) assms(1) assms(2) assms(4) unfolding scoped(1)
    by (rule extract_name_scoped)
qed

text \<open>
  C5 (as amended): for every string \<open>n\<close> of the canonical grammar that is neither a name
  of \<open>NODE_BUILTINS\<close> nor the single character \<open>~\<close>, \<open>extract(n)\<close> is \<open>n\<close> itself. The
  URL parser is taken to resolve \<open>n\<close> on the base, as the URL standard does for such a
  string.
\<close>

theorem extract_identity_on_canonical:
  assumes "canonical n" and "n \<notin> set NODE_BUILTINS" and "n \<noteq> ''~''" and "base_host parse n"
  shows "extract_name parse (JStr n) = Inr (Some n)"
  using assms by (rule extract_name_identity)

theorem extract_identity_on_canonical_witness:
  "canonical ''@scope/pkg'' \<and> ''@scope/pkg'' \<notin> set NODE_BUILTINS \<and> ''@scope/pkg'' \<noteq> ''~'' \<and>
   base_host url_on_base ''@scope/pkg'' \<and>
   extract_name url_on_base (JStr ''@scope/pkg'') = Inr (Some ''@scope/pkg'')"
proof -
  have a: "canonical ''@scope/pkg''" by code_simp
  have b: "''@scope/pkg'' \<notin> set NODE_BUILTINS" by code_simp
  have c: "''@scope/pkg'' \<noteq> ''~''" by simp
  have d: "base_host url_on_base ''@scope/pkg''" by (simp add: base_host_def url_on_base_def)
  from a b c d extract_identity_on_canonical [OF a b c d] show ?thesis by (intro conjI)
qed

text \<open>
  C5 as stated fails: \<open>fs\<close> and \<open>~\<close> match the canonical grammar, and the extractor
  returns \<open>null\<close> for both, the first as a built-in module and the second as an alias.
\<close>

theorem extract_identity_counterexample:
  "canonical ''fs'' \<and> extract_name url_on_base (JStr ''fs'') = Inr None \<and>
   canonical ''~'' \<and> extract_name url_on_base (JStr ''~'') = Inr None"
  by code_simp

text \<open>
  Apart from \<open>~\<close>, a result of the extractor is a fixed point of it: when \<open>extract(s)\<close> is
  a string \<open>r\<close> other than \<open>~\<close>, \<open>extract(r)\<close> is \<open>r\<close>. The URL parser is taken to resolve
  \<open>r\<close> on the base, as the URL standard does for a string of the canonical grammar.
\<close>

lemma extract_name_fixed_point:
  assumes "extract_name parse v = Inr (Some r)" and "r \<noteq> ''~''" and "base_host parse r"
  shows "extract_name parse (JStr r) = Inr (Some r)"
proof -
  from extract_name_canonical [OF assms(1)]
  have "canonical r" and "r \<notin> set NODE_BUILTINS" by simp_all
  then show ?thesis using assms(2) assms(3) by (rule extract_name_identity)
qed

text \<open>
  The result \<open>~\<close> comes out of the CDN branch as well: the first segment of the path of
  an \<open>unpkg.com\<close> URL goes to \<open>normalizePackageName\<close> with no alias check.
\<close>

lemma cdn_url_parsed: "parse s = parse' s \<Longrightarrow> cdn_url parse s = cdn_url parse' s"
  by (simp add: cdn_url_def)

lemma extract_tilde_from_cdn:
  assumes "parse ''https://unpkg.com/~/x.js'' =
      Some \<lparr>hostname = ''unpkg.com'', pathname = ''/~/x.js''\<rparr>"
  shows "extract_name parse (JStr ''https://unpkg.com/~/x.js'') = Inr (Some ''~'')"
proof -
  let ?s = "''https://unpkg.com/~/x.js''"
  let ?parse' = "\<lambda>s :: string. Some \<lparr>hostname = ''unpkg.com'', pathname = ''/~/x.js''\<rparr>"
  have trim: "js_trim ?s = ?s" by code_simp
  have strip: "stripQueryAndHash ?s = ?s" by code_simp
  have no_alias: "\<not> isAliasPath ?s" by code_simp
  have "cdn_url parse ?s = cdn_url ?parse' ?s"
    by (rule cdn_url_parsed) (simp add: assms)
  also have "\<dots> = Inr (Returned (Some ''~''))" by code_simp
  finally have cdn: "cdn_url parse ?s = Inr (Returned (Some ''~''))" .
  show ?thesis
    using no_alias by (simp add: extract_name_def trim strip cdn)
qed

text \<open>
  C8, on the code: extraction is not idempotent. For \<open>~@1.0\<close> the extractor returns \<open>~\<close>,
  the version being stripped after the alias checks, and for \<open>~\<close> it returns \<open>null\<close>,
  since \<open>isAliasPath\<close> rejects \<open>~\<close>: \<open>extract(extract("~@1.0"))\<close> is not
  \<open>extract("~@1.0")\<close>. The URL parser is taken to resolve \<open>~@1.0\<close> on the base, as the
  URL standard does.
\<close>

theorem extract_tilde_not_idempotent:
  assumes "base_host parse ''~@1.0''"
  shows "extract_name parse (JStr ''~@1.0'') = Inr (Some ''~'') \<and>
         extract_name parse (JStr ''~'') = Inr None"
proof
  have trim: "js_trim ''~@1.0'' = ''~@1.0''" by code_simp
  have strip: "stripQueryAndHash ''~@1.0'' = ''~@1.0''" by code_simp
  have no_alias: "\<not> isAliasPath ''~@1.0''" by code_simp
  have "\<not> web_url ''~@1.0''" by code_simp
  with assms have cdn: "cdn_url parse ''~@1.0'' = Inr Continue" by (rule not_cdn_continue)
  have std: "standard_path ''~@1.0'' = Inr (Some ''~'')" by code_simp
  show "extract_name parse (JStr ''~@1.0'') = Inr (Some ''~'')"
    using no_alias by (simp add: extract_name_def trim strip cdn std)
  have trim': "js_trim ''~'' = ''~''" by code_simp
  have strip': "stripQueryAndHash ''~'' = ''~''" by code_simp
  have is_alias: "isAliasPath ''~''" by code_simp
  show "extract_name parse (JStr ''~'') = Inr None"
    using is_alias by (simp add: extract_name_def trim' strip')
qed

theorem extract_tilde_not_idempotent_witness:
  "base_host url_on_base ''~@1.0'' \<and>
   extract_name url_on_base (JStr ''~@1.0'') = Inr (Some ''~'') \<and>
   extract_name url_on_base (JStr ''~'') = Inr None"
proof -
  have a: "base_host url_on_base ''~@1.0''" by (simp add: base_host_def url_on_base_def)
  from extract_tilde_not_idempotent [OF a]
  have b: "extract_name url_on_base (JStr ''~@1.0'') = Inr (Some ''~'')"
    and c: "extract_name url_on_base (JStr ''~'') = Inr None" by simp_all
  from a b c show ?thesis by (intro conjI)
qed

section \<open>The package record\<close>

lemma keys_retag:
  "keys (map (\<lambda>(k, srcs). if k = p then (k, f srcs) else (k, srcs)) m) = keys m"
  by (induction m) (auto simp: keys_def)

lemma keys_addPackage:
  "keys (addPackage v src m) = (if truthy v \<and> \<not> isInternalModule v m then insert v (keys m) else keys m)"
  by (auto simp: addPackage_def Let_def keys_retag map_has_def) (auto simp: keys_def)

lemma addPackage_falsy: "\<not> truthy v \<Longrightarrow> addPackage v src m = m"
  by (simp add: addPackage_def)

lemma scanContent_keys:
  "\<exists>m'. scanContent parse captures source m = Inr m' \<and>
        (\<forall>k. k \<in> keys m' \<longrightarrow> \<not> truthy k \<longrightarrow> k \<in> keys m)"
proof (induction captures arbitrary: m)
  case Nil
  show ?case by simp
next
  case (Cons c cs)
  show ?case
  proof (cases "c = []")
    case True
    with Cons show ?thesis by simp
  next
    case False
    obtain pkg where pkg: "extract_name parse (JStr c) = Inr pkg"
      using extract_name_total by blast
    obtain m' where m': "scanContent parse cs source (addPackage (or_null pkg) source m) = Inr m'"
      and sub: "\<forall>k. k \<in> keys m' \<longrightarrow> \<not> truthy k \<longrightarrow> k \<in> keys (addPackage (or_null pkg) source m)"
      using Cons.IH by blast
    have "\<forall>k. k \<in> keys m' \<longrightarrow> \<not> truthy k \<longrightarrow> k \<in> keys m"
      using sub by (auto simp: keys_addPackage split: if_splits)
    with False pkg m' show ?thesis by simp
  qed
qed

text \<open>
  C10: \<open>addPackage\<close> with a falsy name (\<open>null\<close>, \<open>undefined\<close>, the empty string) leaves the
  \<open>packages\<close> map as it is; and \<open>scanContent\<close>, which hands every result of the
  extractor to \<open>addPackage\<close>, ends without an exception and adds no falsy key: a falsy
  key of the map afterwards was a key before.
\<close>

theorem addPackage_ignores_falsy:
  "(\<not> truthy v \<longrightarrow> addPackage v src m = m) \<and>
   (\<exists>m'. scanContent parse captures source m = Inr m' \<and>
         (\<forall>k. k \<in> keys m' \<longrightarrow> \<not> truthy k \<longrightarrow> k \<in> keys m))"
  using addPackage_falsy scanContent_keys by blast

theorem addPackage_ignores_falsy_witness:
  "\<not> truthy JNull \<and>
   addPackage JNull ''Inline Script'' [(JStr ''react'', [''Inline Script''])] =
     [(JStr ''react'', [''Inline Script''])] \<and>
   scanContent url_on_base [''left-pad'', ''./local''] ''Inline Script''
       [(JStr ''react'', [''Inline Script''])] =
     Inr [(JStr ''react'', [''Inline Script'']), (JStr ''left-pad'', [''Inline Script''])] \<and>
   JNull \<notin> keys [(JStr ''react'', [''Inline Script'']), (JStr ''left-pad'', [''Inline Script''])]"
proof -
  have a: "\<not> truthy JNull" by simp
  have b: "addPackage JNull ''Inline Script'' [(JStr ''react'', [''Inline Script''])] =
     [(JStr ''react'', [''Inline Script''])]"
    using a addPackage_ignores_falsy [of JNull "''Inline Script''" "[(JStr ''react'', [''Inline Script''])]"] by blast
  have d: "scanContent url_on_base [''left-pad'', ''./local''] ''Inline Script''
       [(JStr ''react'', [''Inline Script''])] =
     Inr [(JStr ''react'', [''Inline Script'']), (JStr ''left-pad'', [''Inline Script''])]"
    by code_simp
  have e: "JNull \<notin> keys [(JStr ''react'', [''Inline Script'']), (JStr ''left-pad'', [''Inline Script''])]"
    by (simp add: keys_def)
  from a b d e show ?thesis by blast
qed

text \<open>
  The recording paths that go through the extractor add canonical names only, and
  \<open>addPackage\<close> adds no internal module on any path.
\<close>

lemma addPackage_extracted:
  assumes "extract_name parse v = Inr pkg"
  shows "keys (addPackage (or_null pkg) src m) \<subseteq> keys m \<union> {k. \<exists>r. k = JStr r \<and> canonical r}"
proof (cases pkg)
  case None
  then show ?thesis by (simp add: or_null_def keys_addPackage)
next
  case (Some r)
  with assms have "canonical r" using extract_name_canonical by blast
  with Some show ?thesis by (auto simp: or_null_def keys_addPackage)
qed

lemma scanContent_validated:
  "scanContent parse captures source m = Inr m' \<Longrightarrow>
   keys m' \<subseteq> keys m \<union> {k. \<exists>r. k = JStr r \<and> canonical r}"
proof (induction captures arbitrary: m)
  case Nil
  then show ?case by auto
next
  case (Cons c cs)
  show ?case
  proof (cases "c = []")
    case True
    with Cons show ?thesis by simp
  next
    case False
    obtain pkg where pkg: "extract_name parse (JStr c) = Inr pkg"
      using extract_name_total by blast
    with False Cons.prems
    have "scanContent parse cs source (addPackage (or_null pkg) source m) = Inr m'" by simp
    from Cons.IH [OF this] addPackage_extracted [OF pkg, of source m] show ?thesis by blast
  qed
qed

lemma scanUrls_validated:
  "scanUrls parse urls m = Inr m' \<Longrightarrow>
   keys m' \<subseteq> keys m \<union> {k. \<exists>r. k = JStr r \<and> canonical r}"
proof (induction urls arbitrary: m)
  case Nil
  then show ?case by auto
next
  case (Cons u us)
  obtain pkg where pkg: "extract_name parse (JStr u) = Inr pkg"
    using extract_name_total by blast
  let ?m1 = "if truthy (or_null pkg) then addPackage (or_null pkg) (''CDN/URL: '' @ u) m else m"
  from Cons.prems pkg have "scanUrls parse us ?m1 = Inr m'" by simp
  from Cons.IH [OF this] have "keys m' \<subseteq> keys ?m1 \<union> {k. \<exists>r. k = JStr r \<and> canonical r}" .
  moreover have "keys ?m1 \<subseteq> keys m \<union> {k. \<exists>r. k = JStr r \<and> canonical r}"
    using addPackage_extracted [OF pkg, of "''CDN/URL: '' @ u" m] by auto
  ultimately show ?case by blast
qed

lemma scanSourceMap_validated:
  "keys (scanSourceMap parse sources url m) \<subseteq> keys m \<union> {k. \<exists>r. k = JStr r \<and> canonical r}"
proof (induction sources arbitrary: m)
  case Nil
  show ?case by simp
next
  case (Cons s ss)
  obtain pkg where pkg: "extract_name parse s = Inr pkg"
    using extract_name_total by blast
  from Cons.IH [of "addPackage (or_null pkg) (''Source Map: '' @ url) m"]
    addPackage_extracted [OF pkg, of "''Source Map: '' @ url" m] pkg
  show ?case by auto
qed

lemma addPackage_never_internal:
  "k \<in> keys (addPackage v src m) \<Longrightarrow> k \<in> keys m \<or> (truthy k \<and> \<not> isInternalModule k m)"
  by (auto simp: keys_addPackage split: if_splits)

text \<open>
  C7, evaluated on the code: a \<open>/package.json\<close> whose \<open>dependencies\<close> have the key
  \<open>JSONStream\<close> puts that key into the record, and the key does not match the canonical
  grammar (it has capitals). \<open>parsePackageJson\<close> passes the keys to \<open>addPackage\<close> as they
  are, where the other recording paths go through the extractor.
\<close>

theorem parsePackageJson_records_unvalidated_key:
  "parsePackageJson (Some \<lparr>dependencies = Some [''JSONStream''], devDependencies = None\<rparr>) [] =
     [(JStr ''JSONStream'', [''/package.json''])] \<and>
   \<not> canonical ''JSONStream''"
  by code_simp

section \<open>The exposed-file probe\<close>











section \<open>Risk assessment\<close>

text \<open>
  C2, evaluated on the code: for a package with 5 weekly downloads, no repository and
  the name \<open>pkg123\<close> both conditions trigger and both reasons are reported, but the
  level is \<open>MEDIUM\<close>: the name check assigns \<open>MEDIUM\<close> over the \<open>HIGH\<close> of the first
  check. With the first condition alone the level is \<open>HIGH\<close>, and with neither it is
  \<open>LOW\<close>.
\<close>

theorem assessRisk_both_conditions_medium:
  "assessRisk \<lparr>info_name = JStr ''pkg123'', repository = JUndefined, latest = JStr ''1.0.0''\<rparr> 5 =
     \<lparr>suspicious = True, riskLevel = MEDIUM,
      riskReasons = [''Low downloads + No Repo'', ''Suspicious name pattern'']\<rparr> \<and>
   assessRisk \<lparr>info_name = JStr ''pkg'', repository = JUndefined, latest = JStr ''1.0.0''\<rparr> 5 =
     \<lparr>suspicious = True, riskLevel = HIGH, riskReasons = [''Low downloads + No Repo'']\<rparr> \<and>
   assessRisk \<lparr>info_name = JStr ''pkg'', repository = JObj 0, latest = JStr ''1.0.0''\<rparr> 5 =
     \<lparr>suspicious = False, riskLevel = LOW, riskReasons = []\<rparr>"
  by code_simp

text \<open>
  C4: when the registry answers 404 for a name, the handler returns a finding that is
  unregistered, of level \<open>CRITICAL\<close>, with the dependency-confusion reason.
\<close>

theorem registry_404_is_critical:
  "reg_status res = 404 \<Longrightarrow>
   handleAnalyzePackage name sources (Got res) dl =
     Finding \<lparr>suspicious = True, riskLevel = CRITICAL,
        riskReasons = [''Package not found on npmjs.org - potential dependency confusion''],
        finding_name = name, finding_version = None, weeklyDownloads = None,
        isUnregistered = Some True, finding_sources = sources\<rparr>"
  by (simp add: handleAnalyzePackage_def)

theorem registry_404_is_critical_witness:
  "reg_status \<lparr>reg_status = 404, reg_json = Threw ''Unexpected token''\<rparr> = 404 \<and>
   handleAnalyzePackage ''internal-tool-x'' [''Inline Script'']
       (Got \<lparr>reg_status = 404, reg_json = Threw ''Unexpected token''\<rparr>) (Threw ''offline'') =
     Finding \<lparr>suspicious = True, riskLevel = CRITICAL,
        riskReasons = [''Package not found on npmjs.org - potential dependency confusion''],
        finding_name = ''internal-tool-x'', finding_version = None, weeklyDownloads = None,
        isUnregistered = Some True, finding_sources = [''Inline Script'']\<rparr>"
  using registry_404_is_critical
    [of "\<lparr>reg_status = 404, reg_json = Threw ''Unexpected token''\<rparr>"
        "''internal-tool-x''" "[''Inline Script'']" "Threw ''offline''"]
  by simp

section \<open>The rate limiter\<close>

lemma length_filter_mono:
  "(\<And>x. x \<in> set xs \<Longrightarrow> P x \<Longrightarrow> Q x) \<Longrightarrow> length (filter P xs) \<le> length (filter Q xs)"
proof (induction xs)
  case Nil
  show ?case by simp
next
  case (Cons x xs)
  then have "length (filter P xs) \<le> length (filter Q xs)" by simp
  moreover have "P x \<Longrightarrow> Q x" using Cons.prems by simp
  ultimately show ?case by auto
qed

lemma live_later:
  fixes now now' :: int
  assumes "now \<le> now'"
  shows "filter (\<lambda>t. now' - t < W) (filter (\<lambda>t. now - t < W) rs) = filter (\<lambda>t. now' - t < W) rs"
proof -
  have "\<And>t. (now' - t < W \<and> now - t < W) = (now' - t < W)"
    using assms by auto
  then show ?thesis by (simp add: conj_commute)
qed

text \<open>
  What an invocation does to the callers: nothing, an admission, or a timer.
\<close>

lemma invoke_cases:
  obtains (skipped) "invoke s (c, now) = s"
  | (admitted) "c \<notin> fst ` set (granted s)"
      and "\<And>d. due s c = Some d \<Longrightarrow> d \<le> now"
      and "length (filter (\<lambda>t. now - t < timeWindow (shared s)) (requests (shared s)))
           < maxRequests (shared s)"
      and "invoke s (c, now) =
           s\<lparr>shared := (shared s)\<lparr>requests :=
                  filter (\<lambda>t. now - t < timeWindow (shared s)) (requests (shared s)) @ [now]\<rparr>,
             due := (due s)(c := None), granted := granted s @ [(c, now)]\<rparr>"
  | (delayed) w where "c \<notin> fst ` set (granted s)"
      and "\<And>d. due s c = Some d \<Longrightarrow> d \<le> now"
      and "maxRequests (shared s)
           \<le> length (filter (\<lambda>t. now - t < timeWindow (shared s)) (requests (shared s)))"
      and "attempt_slot (shared s) now =
           (Delayed w, (shared s)\<lparr>requests :=
                  filter (\<lambda>t. now - t < timeWindow (shared s)) (requests (shared s))\<rparr>)"
      and "invoke s (c, now) =
           s\<lparr>shared := (shared s)\<lparr>requests :=
                  filter (\<lambda>t. now - t < timeWindow (shared s)) (requests (shared s))\<rparr>,
             due := (due s)(c \<mapsto> now + timer_delay w)\<rparr>"
proof (cases "c \<in> fst ` set (granted s) \<or> (case due s c of None \<Rightarrow> False | Some d \<Rightarrow> now < d)")
  case True
  then have "invoke s (c, now) = s" by (auto simp: invoke_def)
  then show ?thesis by (rule skipped)
next
  case False
  then have c: "c \<notin> fst ` set (granted s)" and d: "\<And>d. due s c = Some d \<Longrightarrow> d \<le> now"
    by (auto split: option.splits)
  from False have run: "invoke s (c, now) =
      (case attempt_slot (shared s) now of
         (Admitted, lim') \<Rightarrow>
           s\<lparr>shared := lim', due := (due s)(c := None), granted := granted s @ [(c, now)]\<rparr>
       | (Delayed w, lim') \<Rightarrow>
           s\<lparr>shared := lim', due := (due s)(c \<mapsto> now + timer_delay w)\<rparr>)"
    by (auto simp: invoke_def)
  let ?live = "filter (\<lambda>t. now - t < timeWindow (shared s)) (requests (shared s))"
  show ?thesis
  proof (cases "maxRequests (shared s) \<le> length ?live")
    case False
    then have a: "attempt_slot (shared s) now = (Admitted, (shared s)\<lparr>requests := ?live @ [now]\<rparr>)"
      by (simp add: attempt_slot_def Let_def)
    from False have less: "length ?live < maxRequests (shared s)" by simp
    show ?thesis
      by (rule admitted [OF c d less]) (simp_all add: run a)
  next
    case True
    then obtain w where a: "attempt_slot (shared s) now = (Delayed w, (shared s)\<lparr>requests := ?live\<rparr>)"
      by (simp add: attempt_slot_def Let_def)
    show ?thesis
      by (rule delayed [OF c d True a]) (simp_all add: run a)
  qed
qed

text \<open>
  Every half-open window of \<open>timeWindow\<close> milliseconds keeps at most \<open>maxRequests\<close>
  admissions, as long as the times of the invocations do not decrease: the admissions
  still in the window of an invocation are the \<open>requests\<close> that its filter keeps.
\<close>

lemma invoke_config:
  "timeWindow (shared (invoke s e)) = timeWindow (shared s) \<and>
   maxRequests (shared (invoke s e)) = maxRequests (shared s)"
proof (cases e)
  case (Pair c now)
  show ?thesis
    unfolding Pair by (cases rule: invoke_cases [where s = s and c = c and now = now]) simp_all
qed

lemma window_kept:
  assumes "sorted (map snd sched)"
    and "\<forall>e \<in> set sched.
           filter (\<lambda>t. snd e - t < timeWindow (shared s)) (requests (shared s)) =
           filter (\<lambda>t. snd e - t < timeWindow (shared s)) (admission_times s)"
    and "in_window a (timeWindow (shared s)) (admission_times s) \<le> maxRequests (shared s)"
  shows "in_window a (timeWindow (shared s)) (admission_times (run_schedule s sched))
         \<le> maxRequests (shared s)"
  using assms
proof (induction sched arbitrary: s)
  case Nil
  then show ?case by simp
next
  case (Cons e sched)
  obtain c now where e: "e = (c, now)" by (cases e)
  let ?W = "timeWindow (shared s)"
  let ?live = "filter (\<lambda>t. now - t < ?W) (requests (shared s))"
  have live_past: "?live = filter (\<lambda>t. now - t < ?W) (admission_times s)"
    using Cons.prems(2) by (simp add: e)
  have sorted: "sorted (map snd sched)" and later: "\<forall>x \<in> set sched. now \<le> snd x"
    using Cons.prems(1) by (simp_all add: e)
  have rest: "\<forall>x \<in> set sched.
      filter (\<lambda>t. snd x - t < ?W) (requests (shared s)) =
      filter (\<lambda>t. snd x - t < ?W) (admission_times s)"
    using Cons.prems(2) by simp
  have keep: "\<forall>x \<in> set sched.
      filter (\<lambda>t. snd x - t < ?W) ?live = filter (\<lambda>t. snd x - t < ?W) (admission_times s)"
  proof
    fix x assume x: "x \<in> set sched"
    then have "now \<le> snd x" using later by blast
    then have "filter (\<lambda>t. snd x - t < ?W) ?live = filter (\<lambda>t. snd x - t < ?W) (requests (shared s))"
      by (rule live_later)
    also have "\<dots> = filter (\<lambda>t. snd x - t < ?W) (admission_times s)"
      using rest x by blast
    finally show "filter (\<lambda>t. snd x - t < ?W) ?live = filter (\<lambda>t. snd x - t < ?W) (admission_times s)" .
  qed
  let ?s' = "invoke s (c, now)"
  have goal: "in_window a (timeWindow (shared ?s')) (admission_times (run_schedule ?s' sched))
        \<le> maxRequests (shared ?s')"
  proof (cases rule: invoke_cases [where s = s and c = c and now = now])
    case skipped
    show ?thesis
      unfolding skipped by (rule Cons.IH [OF sorted rest Cons.prems(3)])
  next
    case (delayed w)
    show ?thesis
      by (rule Cons.IH) (use sorted keep Cons.prems(3) in \<open>simp_all add: delayed(5) admission_times_def\<close>)
  next
    case admitted
    have count: "in_window a ?W (admission_times s @ [now]) \<le> maxRequests (shared s)"
    proof (cases "a \<le> now \<and> now < a + ?W")
      case True
      have "length (filter (\<lambda>t. a \<le> t \<and> t < a + ?W) (admission_times s))
            \<le> length (filter (\<lambda>t. now - t < ?W) (admission_times s))"
        by (rule length_filter_mono) (use True in auto)
      with admitted(3) live_past True show ?thesis by (simp add: in_window_def)
    next
      case False
      with Cons.prems(3) show ?thesis by (auto simp: in_window_def)
    qed
    show ?thesis
      by (rule Cons.IH) (use sorted keep count in \<open>simp_all add: admitted(4) admission_times_def\<close>)
  qed
  then show ?case
    using invoke_config [of s "(c, now)"] by (simp add: e)
qed

lemma window_bound:
  assumes "sorted (map snd sched)"
  shows "in_window a w (admission_times (run_schedule (start m w) sched)) \<le> m"
proof -
  have "in_window a (timeWindow (shared (start m w)))
          (admission_times (run_schedule (start m w) sched)) \<le> maxRequests (shared (start m w))"
    by (rule window_kept)
       (use assms in \<open>simp_all add: start_def RateLimiter_def admission_times_def in_window_def\<close>)
  then show ?thesis by (simp add: start_def RateLimiter_def)
qed

text \<open>
  A caller is admitted once, and a caller that awaits a timer is not admitted before
  the timer is due.
\<close>

lemma granted_once:
  assumes "c \<in> fst ` set (granted s)"
  shows "(c, t) \<in> set (granted (run_schedule s es)) \<longleftrightarrow> (c, t) \<in> set (granted s)"
  using assms
proof (induction es arbitrary: s)
  case Nil
  show ?case by simp
next
  case (Cons e es)
  obtain c' now where e: "e = (c', now)" by (cases e)
  show ?case
  proof (cases rule: invoke_cases [where s = s and c = c' and now = now])
    case skipped
    with Cons show ?thesis by (simp add: e)
  next
    case (delayed w)
    have "c \<in> fst ` set (granted (invoke s (c', now)))"
      using Cons.prems by (simp add: delayed(5))
    from Cons.IH [OF this] show ?thesis by (simp add: e delayed(5))
  next
    case admitted
    have other: "c' \<noteq> c" using admitted(1) Cons.prems by auto
    have "c \<in> fst ` set (granted (invoke s (c', now)))"
      using Cons.prems by (simp add: admitted(4))
    from Cons.IH [OF this] other show ?thesis by (simp add: e admitted(4))
  qed
qed

lemma timer_delay_nonneg: "0 \<le> timer_delay w"
  by (simp add: timer_delay_def split: option.splits)

lemma not_before_due:
  assumes "due s c = Some d" and "c \<notin> fst ` set (granted s)"
    and "(c, t) \<in> set (granted (run_schedule s es))"
  shows "d \<le> t"
  using assms
proof (induction es arbitrary: s d)
  case Nil
  then show ?case by (force simp: image_iff)
next
  case (Cons e es)
  obtain c' now where e: "e = (c', now)" by (cases e)
  let ?s' = "invoke s (c', now)"
  have run: "(c, t) \<in> set (granted (run_schedule ?s' es))"
    using Cons.prems(3) by (simp add: e)
  show ?case
  proof (cases rule: invoke_cases [where s = s and c = c' and now = now])
    case skipped
    with Cons.prems(1) Cons.prems(2) run show ?thesis
      using Cons.IH by simp
  next
    case (delayed w)
    show ?thesis
    proof (cases "c' = c")
      case True
      have a: "due ?s' c = Some (now + timer_delay w)" by (simp add: delayed(5) True [symmetric])
      have b: "c \<notin> fst ` set (granted ?s')" using Cons.prems(2) by (simp add: delayed(5))
      from Cons.IH [OF a b run] have "now + timer_delay w \<le> t" .
      moreover have "d \<le> now" using delayed(2) Cons.prems(1) True by simp
      ultimately show ?thesis using timer_delay_nonneg [of w] by simp
    next
      case False
      have a: "due ?s' c = Some d" using Cons.prems(1) False by (simp add: delayed(5))
      have b: "c \<notin> fst ` set (granted ?s')" using Cons.prems(2) by (simp add: delayed(5))
      from Cons.IH [OF a b run] show ?thesis .
    qed
  next
    case admitted
    show ?thesis
    proof (cases "c' = c")
      case True
      have "c \<in> fst ` set (granted ?s')" by (simp add: admitted(4) True [symmetric])
      from granted_once [OF this, of t es] run have "(c, t) \<in> set (granted ?s')" by simp
      then have "t = now" using Cons.prems(2) by (force simp: admitted(4) True [symmetric] image_iff)
      moreover have "d \<le> now" using admitted(2) Cons.prems(1) True by simp
      ultimately show ?thesis by simp
    next
      case False
      have a: "due ?s' c = Some d" using Cons.prems(1) False by (simp add: admitted(4))
      have b: "c \<notin> fst ` set (granted ?s')" using Cons.prems(2) False by (simp add: admitted(4))
      from Cons.IH [OF a b run] show ?thesis .
    qed
  qed
qed

text \<open>
  An invocation that finds the window full sets a timer for the time at which the
  oldest admission of the window has left it by 100 milliseconds.
\<close>

lemma full_window_suspends:
  assumes "c \<notin> fst ` set (granted s)" and "\<forall>d. due s c = Some d \<longrightarrow> d \<le> now"
    and "filter (\<lambda>x. now - x < timeWindow (shared s)) (requests (shared s)) = oldest # rest"
    and "maxRequests (shared s) \<le> length (oldest # rest)"
  shows "due (invoke s (c, now)) c = Some (oldest + timeWindow (shared s) + 100) \<and>
         granted (invoke s (c, now)) = granted s"
proof -
  have "oldest \<in> set (filter (\<lambda>x. now - x < timeWindow (shared s)) (requests (shared s)))"
    by (simp add: assms(3))
  then have old: "now - oldest < timeWindow (shared s)" by simp
  then have wait: "now + timer_delay (Some (timeWindow (shared s) - (now - oldest) + 100)) =
      oldest + timeWindow (shared s) + 100"
    by (simp add: timer_delay_def max_def)
  have "attempt_slot (shared s) now =
      (Delayed (Some (timeWindow (shared s) - (now - oldest) + 100)),
       (shared s)\<lparr>requests := oldest # rest\<rparr>)"
    using assms(4) by (simp add: attempt_slot_def Let_def assms(3))
  then have "invoke s (c, now) =
      s\<lparr>shared := (shared s)\<lparr>requests := oldest # rest\<rparr>,
        due := (due s)(c \<mapsto> oldest + timeWindow (shared s) + 100)\<rparr>"
    using assms(1) assms(2) wait by (auto simp: invoke_def split: option.splits)
  then show ?thesis by simp
qed

lemma full_window_delays:
  assumes "c \<notin> fst ` set (granted s)" and "\<forall>d. due s c = Some d \<longrightarrow> d \<le> now"
    and "filter (\<lambda>x. now - x < timeWindow (shared s)) (requests (shared s)) = oldest # rest"
    and "maxRequests (shared s) \<le> length (oldest # rest)"
    and "(c, t) \<in> set (granted (run_schedule s ((c, now) # es)))"
  shows "oldest + timeWindow (shared s) + 100 \<le> t"
proof -
  note susp = full_window_suspends [OF assms(1) assms(2) assms(3) assms(4)]
  have a: "due (invoke s (c, now)) c = Some (oldest + timeWindow (shared s) + 100)"
    using susp by simp
  have b: "c \<notin> fst ` set (granted (invoke s (c, now)))"
    using susp assms(1) by simp
  have "(c, t) \<in> set (granted (run_schedule (invoke s (c, now)) es))"
    using assms(5) by simp
  from not_before_due [OF a b this] show ?thesis .
qed

text \<open>
  One caller alone: \<open>waitForSlot\<close> returns when the limiter admits anything at all, and
  its return is what the invocations of that caller give, run one after the other.
  A limiter with \<open>maxRequests = 0\<close> never admits.
\<close>

lemma waitForSlot_alone:
  assumes "1 \<le> maxRequests lim"
  shows "\<exists>t lim' es. waitForSlot lim now = Some (t, lim') \<and> now \<le> t \<and>
           (length (filter (\<lambda>x. now - x < timeWindow lim) (requests lim)) < maxRequests lim
              \<longrightarrow> t = now) \<and>
           length (filter (\<lambda>x. t - x < timeWindow lim) (requests lim)) < maxRequests lim \<and>
           lim' = lim\<lparr>requests := filter (\<lambda>x. t - x < timeWindow lim) (requests lim) @ [t]\<rparr> \<and>
           fst ` set es \<subseteq> {c} \<and>
           (\<forall>du g. c \<notin> fst ` set g \<longrightarrow> (\<forall>d. du c = Some d \<longrightarrow> d \<le> now) \<longrightarrow>
              run_schedule \<lparr>shared = lim, due = du, granted = g\<rparr> ((c, now) # es) =
              \<lparr>shared = lim', due = du(c := None), granted = g @ [(c, t)]\<rparr>)"
  using assms
proof (induction "length (filter (\<lambda>t. now - t < timeWindow lim) (requests lim))"
    arbitrary: lim now rule: less_induct)
  case less
  let ?W = "timeWindow lim"
  let ?live = "filter (\<lambda>t. now - t < ?W) (requests lim)"
  show ?case
  proof (cases "length ?live \<ge> maxRequests lim")
    case False
    let ?lim' = "lim\<lparr>requests := ?live @ [now]\<rparr>"
    have a: "attempt_slot lim now = (Admitted, ?lim')"
      using False by (simp add: attempt_slot_def Let_def)
    have w: "waitForSlot lim now = Some (now, ?lim')"
      by (subst waitForSlot.simps) (simp add: a)
    have "\<forall>du g. c \<notin> fst ` set g \<longrightarrow> (\<forall>d. du c = Some d \<longrightarrow> d \<le> now) \<longrightarrow>
        run_schedule \<lparr>shared = lim, due = du, granted = g\<rparr> ((c, now) # []) =
        \<lparr>shared = ?lim', due = du(c := None), granted = g @ [(c, now)]\<rparr>"
      by (auto simp: invoke_def a split: option.splits)
    then have sys: "\<forall>du g. c \<notin> fst ` set g \<longrightarrow> (\<forall>d. du c = Some d \<longrightarrow> d \<le> now) \<longrightarrow>
        run_schedule \<lparr>shared = lim, due = du, granted = g\<rparr> ((c, now) # []) =
        \<lparr>shared = ?lim', due = du(c := None), granted = g @ [(c, now)]\<rparr>" .
    show ?thesis
    proof (intro exI conjI)
      show "waitForSlot lim now = Some (now, ?lim')" by (rule w)
      show "now \<le> now" by simp
      show "length (filter (\<lambda>x. now - x < timeWindow lim) (requests lim)) < maxRequests lim
              \<longrightarrow> now = now" by simp
      show "length (filter (\<lambda>x. now - x < timeWindow lim) (requests lim)) < maxRequests lim"
        using False by simp
      show "?lim' = lim\<lparr>requests := filter (\<lambda>x. now - x < timeWindow lim) (requests lim) @ [now]\<rparr>"
        by simp
      show "fst ` set ([] :: (nat \<times> int) list) \<subseteq> {c}" by simp
      show "\<forall>du g. c \<notin> fst ` set g \<longrightarrow> (\<forall>d. du c = Some d \<longrightarrow> d \<le> now) \<longrightarrow>
        run_schedule \<lparr>shared = lim, due = du, granted = g\<rparr> ((c, now) # []) =
        \<lparr>shared = ?lim', due = du(c := None), granted = g @ [(c, now)]\<rparr>" by (rule sys)
    qed
  next
    case True
    with less.prems obtain oldest rest where live: "?live = oldest # rest"
      by (cases ?live) auto
    have "oldest \<in> set ?live" by (simp add: live)
    then have old: "now - oldest < ?W" by simp
    define now' where "now' = oldest + ?W + 100"
    define lim1 where "lim1 = lim\<lparr>requests := ?live\<rparr>"
    have wait: "now + timer_delay (Some (?W - (now - oldest) + 100)) = now'"
      using old by (simp add: now'_def timer_delay_def max_def)
    have a: "attempt_slot lim now = (Delayed (Some (?W - (now - oldest) + 100)), lim1)"
      using True by (simp add: attempt_slot_def Let_def live lim1_def)
    then have step: "waitForSlot lim now = waitForSlot lim1 now'"
      by (subst waitForSlot.simps) (simp add: wait)
    have "filter (\<lambda>t. now' - t < timeWindow lim1) (requests lim1) = filter (\<lambda>t. now' - t < ?W) rest"
      by (simp add: lim1_def live now'_def)
    then have "length (filter (\<lambda>t. now' - t < timeWindow lim1) (requests lim1)) \<le> length rest"
      by simp
    then have smaller: "length (filter (\<lambda>t. now' - t < timeWindow lim1) (requests lim1)) < length ?live"
      by (simp add: live)
    have "1 \<le> maxRequests lim1" using less.prems by (simp add: lim1_def)
    from less.hyps [OF smaller this] obtain t lim' es where
      w: "waitForSlot lim1 now' = Some (t, lim')" and t: "now' \<le> t"
      and room1: "length (filter (\<lambda>x. t - x < timeWindow lim1) (requests lim1)) < maxRequests lim1"
      and after1: "lim' = lim1\<lparr>requests := filter (\<lambda>x. t - x < timeWindow lim1) (requests lim1) @ [t]\<rparr>"
      and es: "fst ` set es \<subseteq> {c}"
      and sys: "\<forall>du g. c \<notin> fst ` set g \<longrightarrow> (\<forall>d. du c = Some d \<longrightarrow> d \<le> now') \<longrightarrow>
          run_schedule \<lparr>shared = lim1, due = du, granted = g\<rparr> ((c, now') # es) =
          \<lparr>shared = lim', due = du(c := None), granted = g @ [(c, t)]\<rparr>"
      by blast
    have later: "now \<le> now'" using old by (simp add: now'_def)
    then have "now \<le> t" using t by simp
    then have same: "filter (\<lambda>x. t - x < timeWindow lim1) (requests lim1) =
        filter (\<lambda>x. t - x < ?W) (requests lim)"
      by (simp add: lim1_def live_later del: filter_filter)
    have "\<forall>du g. c \<notin> fst ` set g \<longrightarrow> (\<forall>d. du c = Some d \<longrightarrow> d \<le> now) \<longrightarrow>
        run_schedule \<lparr>shared = lim, due = du, granted = g\<rparr> ((c, now) # (c, now') # es) =
        \<lparr>shared = lim', due = du(c := None), granted = g @ [(c, t)]\<rparr>"
    proof (intro allI impI)
      fix du :: "nat \<rightharpoonup> int" and g :: "(nat \<times> int) list"
      assume g: "c \<notin> fst ` set g" and d: "\<forall>d. du c = Some d \<longrightarrow> d \<le> now"
      have first: "invoke \<lparr>shared = lim, due = du, granted = g\<rparr> (c, now) =
          \<lparr>shared = lim1, due = du(c \<mapsto> now'), granted = g\<rparr>"
        using g d by (auto simp: invoke_def a wait split: option.splits)
      have "run_schedule \<lparr>shared = lim, due = du, granted = g\<rparr> ((c, now) # (c, now') # es) =
          run_schedule \<lparr>shared = lim1, due = du(c \<mapsto> now'), granted = g\<rparr> ((c, now') # es)"
        by (simp only: run_schedule.simps first)
      also have "\<dots> = \<lparr>shared = lim', due = (du(c \<mapsto> now'))(c := None), granted = g @ [(c, t)]\<rparr>"
        using sys g by simp
      also have "(du(c \<mapsto> now'))(c := None) = du(c := None)" by simp
      finally show "run_schedule \<lparr>shared = lim, due = du, granted = g\<rparr> ((c, now) # (c, now') # es) =
          \<lparr>shared = lim', due = du(c := None), granted = g @ [(c, t)]\<rparr>" .
    qed
    then have sys': "\<forall>du g. c \<notin> fst ` set g \<longrightarrow> (\<forall>d. du c = Some d \<longrightarrow> d \<le> now) \<longrightarrow>
        run_schedule \<lparr>shared = lim, due = du, granted = g\<rparr> ((c, now) # (c, now') # es) =
        \<lparr>shared = lim', due = du(c := None), granted = g @ [(c, t)]\<rparr>" .
    show ?thesis
    proof (intro exI conjI)
      show "waitForSlot lim now = Some (t, lim')" using step w by simp
      show "now \<le> t" by fact
      show "length (filter (\<lambda>x. now - x < timeWindow lim) (requests lim)) < maxRequests lim
              \<longrightarrow> t = now" using True by simp
      show "length (filter (\<lambda>x. t - x < timeWindow lim) (requests lim)) < maxRequests lim"
        using room1 same by (simp add: lim1_def)
      show "lim' = lim\<lparr>requests := filter (\<lambda>x. t - x < timeWindow lim) (requests lim) @ [t]\<rparr>"
        using after1 same by (simp add: lim1_def)
      show "fst ` set ((c, now') # es) \<subseteq> {c}" using es by simp
      show "\<forall>du g. c \<notin> fst ` set g \<longrightarrow> (\<forall>d. du c = Some d \<longrightarrow> d \<le> now) \<longrightarrow>
        run_schedule \<lparr>shared = lim, due = du, granted = g\<rparr> ((c, now) # (c, now') # es) =
        \<lparr>shared = lim', due = du(c := None), granted = g @ [(c, t)]\<rparr>" by (rule sys')
    qed
  qed
qed

lemma waitForSlot_capacity:
  assumes "waitForSlot lim now = Some y"
  shows "1 \<le> maxRequests lim"
proof (rule waitForSlot.raw_induct [where P = "\<lambda>lim now y. 1 \<le> maxRequests lim"
      and lim = lim and now = now and y = y])
  show "waitForSlot lim now = Some y" by (rule assms)
next
  fix f :: "limiter \<Rightarrow> int \<Rightarrow> (int \<times> limiter) option" and lim now y
  assume ih: "\<And>lim now y. f lim now = Some y \<Longrightarrow> 1 \<le> maxRequests lim"
    and body: "(case attempt_slot lim now of (Admitted, lim') \<Rightarrow> Some (now, lim')
      | (Delayed w, lim') \<Rightarrow> f lim' (now + timer_delay w)) = Some y"
  show "1 \<le> maxRequests lim"
  proof (cases "maxRequests lim \<le> length (filter (\<lambda>t. now - t < timeWindow lim) (requests lim))")
    case False
    then show ?thesis by simp
  next
    case True
    then obtain w where a: "attempt_slot lim now =
        (Delayed w, lim\<lparr>requests := filter (\<lambda>t. now - t < timeWindow lim) (requests lim)\<rparr>)"
      by (simp add: attempt_slot_def Let_def)
    with body have "f (lim\<lparr>requests := filter (\<lambda>t. now - t < timeWindow lim) (requests lim)\<rparr>)
        (now + timer_delay w) = Some y" by simp
    from ih [OF this] show ?thesis by simp
  qed
qed

lemma waitForSlot_no_capacity: "waitForSlot (RateLimiter 0 w) now = None"
proof (cases "waitForSlot (RateLimiter 0 w) now")
  case None
  then show ?thesis .
next
  case (Some y)
  from waitForSlot_capacity [OF this] show ?thesis by (simp add: RateLimiter_def)
qed

text \<open>
  C6 (as amended): for a limiter made with \<open>maxRequests = m\<close> and \<open>timeWindow = w\<close>, any
  number of callers and any interleaving of their invocations, the clock never going
  back: every window \<open>[a, a + w)\<close> of \<open>w\<close> milliseconds holds at most \<open>m\<close> admissions.
  A caller that finds the window full is not rejected but delayed: whatever the other
  callers do meanwhile, it is not admitted before the oldest admission of that window
  has left it by 100 milliseconds. A caller alone with a limiter that admits anything at
  all (\<open>maxRequests\<close> at least 1) is admitted: \<open>waitForSlot\<close> returns, at once when the
  window has room and not before that time when it is full; at the admission fewer than
  \<open>maxRequests\<close> earlier requests are in the window, and the admission is recorded behind
  them; the return of \<open>waitForSlot\<close> is what the invocations of that caller give.
\<close>

theorem waitForSlot_limits_window:
  fixes sched es :: "(nat \<times> int) list" and c c' :: nat
  shows
    "(sorted (map snd sched) \<longrightarrow>
        in_window a w (admission_times (run_schedule (start m w) sched)) \<le> m) \<and>
     (c \<notin> fst ` set (granted s) \<and> (\<forall>d. due s c = Some d \<longrightarrow> d \<le> now) \<and>
      filter (\<lambda>x. now - x < timeWindow (shared s)) (requests (shared s)) = oldest # rest \<and>
      maxRequests (shared s) \<le> length (oldest # rest) \<and>
      (c, t) \<in> set (granted (run_schedule s ((c, now) # es)))
        \<longrightarrow> oldest + timeWindow (shared s) + 100 \<le> t) \<and>
     (1 \<le> maxRequests lim \<longrightarrow>
        (\<exists>t' lim' es'.
           waitForSlot lim now' = Some (t', lim') \<and> now' \<le> t' \<and>
           (length (filter (\<lambda>x. now' - x < timeWindow lim) (requests lim)) < maxRequests lim
              \<longrightarrow> t' = now') \<and>
           length (filter (\<lambda>x. t' - x < timeWindow lim) (requests lim)) < maxRequests lim \<and>
           lim' = lim\<lparr>requests := filter (\<lambda>x. t' - x < timeWindow lim) (requests lim) @ [t']\<rparr> \<and>
           (\<forall>x xs. filter (\<lambda>x. now' - x < timeWindow lim) (requests lim) = x # xs \<and>
                   maxRequests lim \<le> length (x # xs) \<longrightarrow> x + timeWindow lim + 100 \<le> t') \<and>
           fst ` set es' \<subseteq> {c'} \<and>
           run_schedule \<lparr>shared = lim, due = Map.empty, granted = []\<rparr> ((c', now') # es') =
             \<lparr>shared = lim', due = Map.empty, granted = [(c', t')]\<rparr>))"
proof (intro conjI impI)
  assume "sorted (map snd sched)"
  then show "in_window a w (admission_times (run_schedule (start m w) sched)) \<le> m"
    by (rule window_bound)
next
  assume h: "c \<notin> fst ` set (granted s) \<and> (\<forall>d. due s c = Some d \<longrightarrow> d \<le> now) \<and>
      filter (\<lambda>x. now - x < timeWindow (shared s)) (requests (shared s)) = oldest # rest \<and>
      maxRequests (shared s) \<le> length (oldest # rest) \<and>
      (c, t) \<in> set (granted (run_schedule s ((c, now) # es)))"
  from h have h1: "c \<notin> fst ` set (granted s)" by (rule conjunct1)
  from h have h2: "\<forall>d. due s c = Some d \<longrightarrow> d \<le> now" by (elim conjE)
  from h have h3: "filter (\<lambda>x. now - x < timeWindow (shared s)) (requests (shared s)) = oldest # rest"
    by (elim conjE)
  from h have h4: "maxRequests (shared s) \<le> length (oldest # rest)" by (elim conjE)
  from h have h5: "(c, t) \<in> set (granted (run_schedule s ((c, now) # es)))" by (elim conjE)
  from full_window_delays [OF h1 h2 h3 h4 h5]
  show "oldest + timeWindow (shared s) + 100 \<le> t" .
next
  assume "1 \<le> maxRequests lim"
  from waitForSlot_alone [OF this, of now' c'] obtain t' lim' es' where
    w: "waitForSlot lim now' = Some (t', lim')" and later: "now' \<le> t'"
    and prompt: "length (filter (\<lambda>x. now' - x < timeWindow lim) (requests lim)) < maxRequests lim
              \<longrightarrow> t' = now'"
    and room: "length (filter (\<lambda>x. t' - x < timeWindow lim) (requests lim)) < maxRequests lim"
    and after: "lim' = lim\<lparr>requests := filter (\<lambda>x. t' - x < timeWindow lim) (requests lim) @ [t']\<rparr>"
    and es: "fst ` set es' \<subseteq> {c'}"
    and sys: "\<forall>du g. c' \<notin> fst ` set g \<longrightarrow> (\<forall>d. du c' = Some d \<longrightarrow> d \<le> now') \<longrightarrow>
        run_schedule \<lparr>shared = lim, due = du, granted = g\<rparr> ((c', now') # es') =
        \<lparr>shared = lim', due = du(c' := None), granted = g @ [(c', t')]\<rparr>"
    by blast
  let ?s = "\<lparr>shared = lim, due = Map.empty, granted = []\<rparr> :: callers"
  from sys have run: "run_schedule ?s ((c', now') # es') =
      \<lparr>shared = lim', due = Map.empty, granted = [(c', t')]\<rparr>"
    by simp
  have delay: "\<forall>x xs. filter (\<lambda>x. now' - x < timeWindow lim) (requests lim) = x # xs \<and>
      maxRequests lim \<le> length (x # xs) \<longrightarrow> x + timeWindow lim + 100 \<le> t'"
  proof (intro allI impI)
    fix x xs
    assume f: "filter (\<lambda>x. now' - x < timeWindow lim) (requests lim) = x # xs \<and>
      maxRequests lim \<le> length (x # xs)"
    have a: "c' \<notin> fst ` set (granted ?s)" by simp
    have b: "\<forall>d. due ?s c' = Some d \<longrightarrow> d \<le> now'" by simp
    have c: "filter (\<lambda>x. now' - x < timeWindow (shared ?s)) (requests (shared ?s)) = x # xs"
      using f by simp
    have d: "maxRequests (shared ?s) \<le> length (x # xs)" using f by simp
    have e: "(c', t') \<in> set (granted (run_schedule ?s ((c', now') # es')))"
      by (simp only: run) simp
    from full_window_delays [OF a b c d e] show "x + timeWindow lim + 100 \<le> t'" by simp
  qed
  show "\<exists>t' lim' es'.
           waitForSlot lim now' = Some (t', lim') \<and> now' \<le> t' \<and>
           (length (filter (\<lambda>x. now' - x < timeWindow lim) (requests lim)) < maxRequests lim
              \<longrightarrow> t' = now') \<and>
           length (filter (\<lambda>x. t' - x < timeWindow lim) (requests lim)) < maxRequests lim \<and>
           lim' = lim\<lparr>requests := filter (\<lambda>x. t' - x < timeWindow lim) (requests lim) @ [t']\<rparr> \<and>
           (\<forall>x xs. filter (\<lambda>x. now' - x < timeWindow lim) (requests lim) = x # xs \<and>
                   maxRequests lim \<le> length (x # xs) \<longrightarrow> x + timeWindow lim + 100 \<le> t') \<and>
           fst ` set es' \<subseteq> {c'} \<and>
           run_schedule \<lparr>shared = lim, due = Map.empty, granted = []\<rparr> ((c', now') # es') =
             \<lparr>shared = lim', due = Map.empty, granted = [(c', t')]\<rparr>"
  proof (intro exI conjI)
    show "waitForSlot lim now' = Some (t', lim')" by (rule w)
    show "now' \<le> t'" by (rule later)
    show "length (filter (\<lambda>x. now' - x < timeWindow lim) (requests lim)) < maxRequests lim
              \<longrightarrow> t' = now'" by (rule prompt)
    show "length (filter (\<lambda>x. t' - x < timeWindow lim) (requests lim)) < maxRequests lim"
      by (rule room)
    show "lim' = lim\<lparr>requests := filter (\<lambda>x. t' - x < timeWindow lim) (requests lim) @ [t']\<rparr>"
      by (rule after)
    show "\<forall>x xs. filter (\<lambda>x. now' - x < timeWindow lim) (requests lim) = x # xs \<and>
      maxRequests lim \<le> length (x # xs) \<longrightarrow> x + timeWindow lim + 100 \<le> t'" by (rule delay)
    show "fst ` set es' \<subseteq> {c'}" by (rule es)
    show "run_schedule \<lparr>shared = lim, due = Map.empty, granted = []\<rparr> ((c', now') # es') =
             \<lparr>shared = lim', due = Map.empty, granted = [(c', t')]\<rparr>" by (rule run)
  qed
qed

theorem waitForSlot_limits_window_witness:
  "sorted (map snd [(0::nat, 0::int), (1, 1), (2, 2), (3, 10), (2, 50), (2, 110)]) \<and>
   in_window 0 10 (admission_times (run_schedule (start 2 10)
       [(0, 0), (1, 1), (2, 2), (3, 10), (2, 50), (2, 110)])) \<le> 2 \<and>
   (2::nat) \<notin> fst ` set (granted (run_schedule (start 2 10) [(0, 0), (1, 1)])) \<and>
   due (run_schedule (start 2 10) [(0, 0), (1, 1)]) 2 = None \<and>
   filter (\<lambda>x. 2 - x < timeWindow (shared (run_schedule (start 2 10) [(0, 0), (1, 1)])))
       (requests (shared (run_schedule (start 2 10) [(0, 0), (1, 1)]))) = [0, 1] \<and>
   maxRequests (shared (run_schedule (start 2 10) [(0, 0), (1, 1)])) \<le> length [0::int, 1] \<and>
   (2, 110) \<in> set (granted (run_schedule (run_schedule (start 2 10) [(0, 0), (1, 1)])
       [(2, 2), (3, 10), (2, 50), (2, 110)])) \<and>
   0 + timeWindow (shared (run_schedule (start 2 10) [(0, 0), (1, 1)])) + 100 \<le> 110 \<and>
   1 \<le> maxRequests \<lparr>maxRequests = 2, timeWindow = 10, requests = [0, 1]\<rparr> \<and>
   waitForSlot \<lparr>maxRequests = 2, timeWindow = 10, requests = [0, 1]\<rparr> 2 =
     Some (110, \<lparr>maxRequests = 2, timeWindow = 10, requests = [110]\<rparr>) \<and>
   (\<exists>es'. fst ` set es' \<subseteq> {2} \<and>
      run_schedule \<lparr>shared = \<lparr>maxRequests = 2, timeWindow = 10, requests = [0, 1]\<rparr>,
                     due = Map.empty, granted = []\<rparr> ((2, 2) # es') =
        \<lparr>shared = \<lparr>maxRequests = 2, timeWindow = 10, requests = [110]\<rparr>, due = Map.empty,
         granted = [(2, 110)]\<rparr>)"
proof -
  let ?S = "run_schedule (start 2 10) [(0, 0), (1, 1)]"
  let ?L = "\<lparr>maxRequests = 2, timeWindow = 10, requests = [0, 1]\<rparr>"
  note T = waitForSlot_limits_window [where sched = "[(0, 0), (1, 1), (2, 2), (3, 10), (2, 50), (2, 110)]"
      and a = 0 and w = 10 and m = 2 and s = ?S and c = 2 and now = 2 and oldest = 0
      and rest = "[1]" and t = 110 and es = "[(3, 10), (2, 50), (2, 110)]"
      and lim = ?L and now' = 2 and c' = 2]
  have S: "?S = \<lparr>shared = ?L, due = Map.empty, granted = [(0, 0), (1, 1)]\<rparr>"
    by (simp add: start_def RateLimiter_def invoke_def attempt_slot_def)
  have h1: "sorted (map snd [(0::nat, 0::int), (1, 1), (2, 2), (3, 10), (2, 50), (2, 110)])"
    by simp
  from T [THEN conjunct1, rule_format, OF h1]
  have c1: "in_window 0 10 (admission_times (run_schedule (start 2 10)
       [(0, 0), (1, 1), (2, 2), (3, 10), (2, 50), (2, 110)])) \<le> 2" .
  have h2: "(2::nat) \<notin> fst ` set (granted ?S)" unfolding S by simp
  have h3: "due ?S 2 = None" unfolding S by simp
  have h4: "filter (\<lambda>x. 2 - x < timeWindow (shared ?S)) (requests (shared ?S)) = [0, 1]"
    unfolding S by simp
  have h5: "maxRequests (shared ?S) \<le> length [0::int, 1]" unfolding S by simp
  have h6: "(2, 110) \<in> set (granted (run_schedule ?S [(2, 2), (3, 10), (2, 50), (2, 110)]))"
    unfolding S by (simp add: invoke_def attempt_slot_def timer_delay_def)
  have "(2::nat) \<notin> fst ` set (granted ?S) \<and> (\<forall>d. due ?S 2 = Some d \<longrightarrow> d \<le> 2) \<and>
      filter (\<lambda>x. 2 - x < timeWindow (shared ?S)) (requests (shared ?S)) = [0, 1] \<and>
      maxRequests (shared ?S) \<le> length [0::int, 1] \<and>
      (2, 110) \<in> set (granted (run_schedule ?S [(2, 2), (3, 10), (2, 50), (2, 110)]))"
    using h2 h3 h4 h5 h6 by (intro conjI) simp_all
  from T [THEN conjunct2, THEN conjunct1, rule_format, OF this]
  have c2: "0 + timeWindow (shared ?S) + 100 \<le> 110" .
  have h7: "1 \<le> maxRequests ?L" by simp
  have v: "waitForSlot ?L 2 = Some (110, \<lparr>maxRequests = 2, timeWindow = 10, requests = [110]\<rparr>)"
    apply (subst waitForSlot.simps)
    apply (simp add: attempt_slot_def timer_delay_def)
    apply (subst waitForSlot.simps)
    apply (simp add: attempt_slot_def)
    done
  from T [THEN conjunct2, THEN conjunct2, rule_format, OF h7] obtain t' lim' es' where
    w: "waitForSlot ?L 2 = Some (t', lim')"
    and es: "fst ` set es' \<subseteq> {2}"
    and r: "run_schedule \<lparr>shared = ?L, due = Map.empty, granted = []\<rparr> ((2, 2) # es') =
        \<lparr>shared = lim', due = Map.empty, granted = [(2, t')]\<rparr>"
    by blast
  from v w have "t' = 110" and "lim' = \<lparr>maxRequests = 2, timeWindow = 10, requests = [110]\<rparr>"
    by simp_all
  with es r have c3: "\<exists>es'. fst ` set es' \<subseteq> {2} \<and>
      run_schedule \<lparr>shared = ?L, due = Map.empty, granted = []\<rparr> ((2, 2) # es') =
        \<lparr>shared = \<lparr>maxRequests = 2, timeWindow = 10, requests = [110]\<rparr>, due = Map.empty,
         granted = [(2, 110)]\<rparr>"
    by (intro exI [of _ es'] conjI) simp_all
  from h1 c1 h2 h3 h4 h5 h6 c2 h7 v c3 show ?thesis by (intro conjI)
qed

text \<open>
  C6 as stated fails. The closed interval \<open>[0, 10]\<close> has the length of the window and
  holds three admissions of a limiter with \<open>maxRequests = 2\<close>: the third caller comes at
  10, when the admission at 0 has just left the window. When the clock goes back, as
  \<open>Date.now()\<close> may, the window \<open>[0, 10)\<close> holds three admissions. And with
  \<open>maxRequests = 0\<close> a caller alone is never admitted.
\<close>

theorem waitForSlot_window_counterexample:
  "in_closed_interval 0 10 (admission_times (run_schedule (start 2 10) [(0, 0), (1, 1), (2, 10)])) = 3 \<and>
   in_window 0 10 (admission_times (run_schedule (start 2 10) [(0, 0), (1, 1), (2, 100), (3, 2)])) = 3 \<and>
   waitForSlot (RateLimiter 0 10) 0 = None"
proof -
  have a: "in_closed_interval 0 10 (admission_times (run_schedule (start 2 10) [(0, 0), (1, 1), (2, 10)])) = 3"
    by (simp add: start_def RateLimiter_def invoke_def attempt_slot_def admission_times_def
        in_closed_interval_def)
  have b: "in_window 0 10 (admission_times (run_schedule (start 2 10) [(0, 0), (1, 1), (2, 100), (3, 2)])) = 3"
    by (simp add: start_def RateLimiter_def invoke_def attempt_slot_def admission_times_def
        in_window_def)
  have c: "waitForSlot (RateLimiter 0 10) 0 = None" by (rule waitForSlot_no_capacity)
  from a b c show ?thesis by (intro conjI)
qed

end
